theory Spec2Isabelle
  imports Main "HOL-Library.Sublist" "HOL-Library.AList" "HOL-Library.Char_ord" "HOL-Library.List_Lexorder"
    "HOL-Library.Product_Lexorder"
begin

section \<open>Strings and paths\<close>

text \<open>
  Python strings are modelled as \<open>string\<close>, the UTF-8 bytes of the text. Every test of the
  source on strings used here (equality, \<open>endswith\<close>, concatenation) gives the same answer on
  the UTF-8 bytes as on the code points.
\<close>

definition endswith :: "string \<Rightarrow> string \<Rightarrow> bool" where
  \<comment> \<open>\<open>s.endswith(e)\<close>\<close>
  "endswith s e = (length e \<le> length s \<and> drop (length s - length e) s = e)"

fun join :: "string \<Rightarrow> string list \<Rightarrow> string" where
  \<comment> \<open>\<open>sep.join(xs)\<close>\<close>
  "join sep [] = []"
| "join sep [x] = x"
| "join sep (x # y # ys) = x @ sep @ join sep (y # ys)"

text \<open>
  A \<open>pathlib.Path\<close> on POSIX: whether it is anchored at the root, and its components.
  Components are file names: not empty, not \<open>.\<close>, and without the separator.
\<close>

datatype path = Path (is_absolute: bool) (names: "string list")

definition str_path :: "path \<Rightarrow> string" where
  \<comment> \<open>\<open>str(p)\<close>\<close>
  "str_path p =
     (if is_absolute p then ''/'' @ join ''/'' (names p)
      else if names p = [] then ''.'' else join ''/'' (names p))"

definition name :: "path \<Rightarrow> string" where
  \<comment> \<open>\<open>p.name\<close>: the final component, empty when there is none\<close>
  "name p = (if names p = [] then [] else last (names p))"

definition child :: "path \<Rightarrow> string \<Rightarrow> path" where
  \<comment> \<open>\<open>p / n\<close> for a file name \<open>n\<close>\<close>
  "child p n = Path (is_absolute p) (names p @ [n])"

definition joinpath :: "path \<Rightarrow> path \<Rightarrow> path" where
  \<comment> \<open>\<open>p / q\<close> for a path \<open>q\<close>: an absolute right operand replaces the left one\<close>
  "joinpath p q = (if is_absolute q then q else Path (is_absolute p) (names p @ names q))"

definition parent :: "path \<Rightarrow> path" where
  \<comment> \<open>\<open>p.parent\<close>\<close>
  "parent p = Path (is_absolute p) (butlast (names p))"

fun rfind :: "char \<Rightarrow> string \<Rightarrow> nat option" where
  \<comment> \<open>\<open>s.rfind(c)\<close>: the index of the last occurrence, \<open>None\<close> for Python's \<open>-1\<close>\<close>
  "rfind c [] = None"
| "rfind c (x # xs) =
     (case rfind c xs of Some i \<Rightarrow> Some (Suc i) | None \<Rightarrow> if x = c then Some 0 else None)"

definition suffix_of :: "path \<Rightarrow> string" where
  \<comment> \<open>\<open>p.suffix\<close>: from the last dot of the name, unless that dot is its first or last
     character (pathlib up to Python 3.13)\<close>
  "suffix_of p =
     (case rfind CHR ''.'' (name p) of
        Some i \<Rightarrow> if 0 < i \<and> i < length (name p) - 1 then drop i (name p) else []
      | None \<Rightarrow> [])"

definition stem :: "path \<Rightarrow> string" where
  \<comment> \<open>\<open>p.stem\<close>: the name without its suffix\<close>
  "stem p =
     (case rfind CHR ''.'' (name p) of
        Some i \<Rightarrow> if 0 < i \<and> i < length (name p) - 1 then take i (name p) else name p
      | None \<Rightarrow> name p)"

fun split_sep :: "string \<Rightarrow> string list" where
  \<comment> \<open>\<open>s.split('/')\<close>\<close>
  "split_sep [] = [[]]"
| "split_sep (c # cs) =
     (if c = CHR ''/'' then [] # split_sep cs
      else (case split_sep cs of w # ws \<Rightarrow> (c # w) # ws | [] \<Rightarrow> [[c]]))"

definition Path_of_str :: "string \<Rightarrow> path" where
  \<comment> \<open>\<open>Path(s)\<close>: empty components and \<open>.\<close> components are dropped, \<open>..\<close> is kept\<close>
  "Path_of_str s =
     Path (s \<noteq> [] \<and> hd s = CHR ''/'')
          (filter (\<lambda>w. w \<noteq> [] \<and> w \<noteq> ''.'') (split_sep s))"

definition valid_name :: "string \<Rightarrow> bool" where
  \<comment> \<open>what can be the name of a directory entry\<close>
  "valid_name n = (n \<noteq> [] \<and> n \<noteq> ''.'' \<and> CHR ''/'' \<notin> set n)"

definition div_str :: "path \<Rightarrow> string \<Rightarrow> path" where
  \<comment> \<open>\<open>p / s\<close> for a string \<open>s\<close>\<close>
  "div_str p s = joinpath p (Path_of_str s)"

datatype error =
  FileNotFoundError | FileExistsError | IsADirectoryError | NotADirectoryError
  | PermissionError | ReadError | ValueError

definition relative_to :: "path \<Rightarrow> path \<Rightarrow> error + path" where
  \<comment> \<open>\<open>p.relative_to(base)\<close>: \<open>ValueError\<close> unless both are anchored alike and the components
     of \<open>base\<close> begin those of \<open>p\<close>\<close>
  "relative_to p base =
     (if is_absolute p = is_absolute base \<and> prefix (names base) (names p)
      then Inr (Path False (drop (length (names base)) (names p)))
      else Inl ValueError)"

fun digit_char :: "nat \<Rightarrow> char" where
  "digit_char n = char_of (48 + n)"

fun str_nat :: "nat \<Rightarrow> string" where
  \<comment> \<open>\<open>str(n)\<close> for a non-negative integer: its decimal digits\<close>
  "str_nat n = (if n < 10 then [digit_char n] else str_nat (n div 10) @ [digit_char (n mod 10)])"

declare str_nat.simps [simp del]

section \<open>Configuration\<close>

record config =
  extensions :: "string set"
  ignored_dirs :: "string set"
  ignored_files :: "string set"
  source_dir :: path
  output_dir :: path
  text_output :: path
  mirror_dir_structure :: bool
  max_workers :: int

section \<open>The file system\<close>

text \<open>
  A file system object is a regular file or a directory. A file carries its content as text,
  \<open>None\<close> when opening or decoding it as UTF-8 fails. A directory carries whether it can be
  listed (\<open>False\<close>: listing raises \<open>PermissionError\<close>) and its entries in the order the
  operating system lists them. Symbolic links and special files are not modelled.
\<close>

datatype node = File "string option" | Dir bool "(string \<times> node) list"

fun is_dir :: "node \<Rightarrow> bool" where
  "is_dir (Dir _ _) = True"
| "is_dir (File _) = False"

fun is_file :: "node \<Rightarrow> bool" where
  "is_file (File _) = True"
| "is_file (Dir _ _) = False"

text \<open>
  Operations on the tree, by the list of names leading from its root. \<open>None\<close> is failure
  (the operating system call raises \<open>OSError\<close>).
\<close>

primrec lookup :: "string list \<Rightarrow> node \<Rightarrow> node option" where
  "lookup [] n = Some n"
| "lookup (x # xs) n =
     (case n of File _ \<Rightarrow> None
      | Dir _ es \<Rightarrow> (case map_of es x of None \<Rightarrow> None | Some c \<Rightarrow> lookup xs c))"

primrec put :: "string list \<Rightarrow> node \<Rightarrow> node \<Rightarrow> node option" where
  \<comment> \<open>place \<open>v\<close> at the path, as a new last entry of its directory or in place of the entry
     of that name; every directory on the way must exist\<close>
  "put [] v n = Some v"
| "put (x # xs) v n =
     (case n of File _ \<Rightarrow> None
      | Dir l es \<Rightarrow>
          (case (if xs = [] then Some v
                 else (case map_of es x of None \<Rightarrow> None | Some c \<Rightarrow> put xs v c)) of
             None \<Rightarrow> None
           | Some c' \<Rightarrow> Some (Dir l (AList.update x c' es))))"

primrec remove :: "string list \<Rightarrow> node \<Rightarrow> node option" where
  \<comment> \<open>delete the entry at the path\<close>
  "remove [] n = None"
| "remove (x # xs) n =
     (case n of File _ \<Rightarrow> None
      | Dir l es \<Rightarrow>
          (case map_of es x of None \<Rightarrow> None
           | Some c \<Rightarrow>
               if xs = [] then Some (Dir l (AList.delete x es))
               else (case remove xs c of None \<Rightarrow> None
                     | Some c' \<Rightarrow> Some (Dir l (AList.update x c' es)))))"

primrec mkdirs :: "string list \<Rightarrow> node \<Rightarrow> node option" where
  \<comment> \<open>\<open>mkdir(parents=True, exist_ok=True)\<close>: create what is missing along the path; fails
     when a component exists and is not a directory\<close>
  "mkdirs [] n = (case n of File _ \<Rightarrow> None | Dir _ _ \<Rightarrow> Some n)"
| "mkdirs (x # xs) n =
     (case n of File _ \<Rightarrow> None
      | Dir l es \<Rightarrow>
          (case mkdirs xs (case map_of es x of None \<Rightarrow> Dir True [] | Some c \<Rightarrow> c) of
             None \<Rightarrow> None
           | Some c' \<Rightarrow> Some (Dir l (AList.update x c' es))))"

fun all_listable :: "node \<Rightarrow> bool" where
  "all_listable (File _) = True"
| "all_listable (Dir l es) = (l \<and> (\<forall>(n, c) \<in> set es. all_listable c))"

text \<open>
  The file system: the tree of the root directory and the working directory, against which
  relative paths are resolved. Components \<open>..\<close> are not interpreted.
\<close>

record filesystem =
  root_dir :: node
  cwd :: "string list"

definition resolve :: "filesystem \<Rightarrow> path \<Rightarrow> string list" where
  "resolve fs p = (if is_absolute p then names p else cwd fs @ names p)"

definition stat :: "filesystem \<Rightarrow> path \<Rightarrow> node option" where
  "stat fs p = lookup (resolve fs p) (root_dir fs)"

definition exists :: "filesystem \<Rightarrow> path \<Rightarrow> bool" where
  \<comment> \<open>\<open>p.exists()\<close>\<close>
  "exists fs p = (stat fs p \<noteq> None)"

definition is_regular_file :: "filesystem \<Rightarrow> path \<Rightarrow> bool" where
  \<comment> \<open>\<open>p.is_file()\<close>\<close>
  "is_regular_file fs p = (\<exists>c. stat fs p = Some (File c))"

definition read_text :: "filesystem \<Rightarrow> path \<Rightarrow> error + string" where
  \<comment> \<open>\<open>open(p, 'r', encoding='utf-8').read()\<close>\<close>
  "read_text fs p =
     (case stat fs p of
        None \<Rightarrow> Inl FileNotFoundError
      | Some (Dir _ _) \<Rightarrow> Inl IsADirectoryError
      | Some (File None) \<Rightarrow> Inl ReadError
      | Some (File (Some c)) \<Rightarrow> Inr c)"

definition write_text :: "filesystem \<Rightarrow> path \<Rightarrow> string \<Rightarrow> error + filesystem" where
  \<comment> \<open>\<open>open(p, 'w', encoding='utf-8').write(c)\<close>: creates or replaces a regular file\<close>
  "write_text fs p c =
     (case stat fs p of
        Some (Dir _ _) \<Rightarrow> Inl IsADirectoryError
      | _ \<Rightarrow> (case put (resolve fs p) (File (Some c)) (root_dir fs) of
                None \<Rightarrow> Inl FileNotFoundError
              | Some r \<Rightarrow> Inr (fs\<lparr>root_dir := r\<rparr>)))"

definition mkdir_parents_exist_ok :: "filesystem \<Rightarrow> path \<Rightarrow> error + filesystem" where
  \<comment> \<open>\<open>p.mkdir(parents=True, exist_ok=True)\<close>\<close>
  "mkdir_parents_exist_ok fs p =
     (case mkdirs (resolve fs p) (root_dir fs) of
        None \<Rightarrow> Inl FileExistsError
      | Some r \<Rightarrow> Inr (fs\<lparr>root_dir := r\<rparr>))"

definition mkdir_parents :: "filesystem \<Rightarrow> path \<Rightarrow> error + filesystem" where
  \<comment> \<open>\<open>p.mkdir(parents=True)\<close>\<close>
  "mkdir_parents fs p =
     (if exists fs p then Inl FileExistsError else mkdir_parents_exist_ok fs p)"

definition rmtree :: "filesystem \<Rightarrow> path \<Rightarrow> error + filesystem" where
  \<comment> \<open>\<open>shutil.rmtree(p)\<close>\<close>
  "rmtree fs p =
     (case stat fs p of
        None \<Rightarrow> Inl FileNotFoundError
      | Some (File _) \<Rightarrow> Inl NotADirectoryError
      | Some (Dir l es) \<Rightarrow>
          if \<not> all_listable (Dir l es) then Inl PermissionError
          else (case remove (resolve fs p) (root_dir fs) of
                  None \<Rightarrow> Inl PermissionError
                | Some r \<Rightarrow> Inr (fs\<lparr>root_dir := r\<rparr>)))"

section \<open>Selector\<close>

definition should_process_file :: "config \<Rightarrow> path \<Rightarrow> bool" where
  "should_process_file cfg file_path =
     ((\<exists>ext \<in> extensions cfg. endswith (str_path file_path) ext)
      \<and> name file_path \<notin> ignored_files cfg)"

section \<open>Traversal\<close>

text \<open>
  \<open>os.walk(top)\<close>, top-down, consumed by a loop that filters \<open>dirs\<close> in place with \<open>keep\<close>
  before the generator resumes: one triple (root, dirs, files) per visited directory, the
  directory itself first, then the walks of the kept subdirectories in listing order. A
  directory that cannot be listed yields nothing (the default \<open>onerror\<close> ignores the error),
  and so does a top that is not a directory.
\<close>

fun os_walk :: "(string \<Rightarrow> bool) \<Rightarrow> path \<Rightarrow> node \<Rightarrow> (path \<times> string list \<times> string list) list" where
  "os_walk keep root (File c) = []"
| "os_walk keep root (Dir listable es) =
     (if \<not> listable then []
      else (root, filter keep (map fst (filter (\<lambda>(n, c). is_dir c) es)),
                 map fst (filter (\<lambda>(n, c). \<not> is_dir c) es))
           # concat (map (\<lambda>(n, c). if is_dir c \<and> keep n then os_walk keep (child root n) c else [])
                       es))"

definition files_to_process :: "config \<Rightarrow> node \<Rightarrow> path list" where
  \<comment> \<open>the collection loop of \<open>process_directory\<close>, on the directory found at \<open>source_dir\<close>\<close>
  "files_to_process cfg src =
     concat (map (\<lambda>(root, dirs, files). filter (should_process_file cfg) (map (child root) files))
                 (os_walk (\<lambda>d. d \<notin> ignored_dirs cfg) (source_dir cfg) src))"


section \<open>Unique-name generator\<close>

definition candidate :: "path \<Rightarrow> string \<Rightarrow> string \<Rightarrow> nat \<Rightarrow> path" where
  \<comment> \<open>\<open>Path(base_path) / f"{name}_{counter}{ext}"\<close>\<close>
  "candidate base_path nm ext counter = div_str base_path (nm @ ''_'' @ str_nat counter @ ext)"

partial_function (option) probe :: "(path \<Rightarrow> bool) \<Rightarrow> path \<Rightarrow> string \<Rightarrow> string \<Rightarrow> nat \<Rightarrow> path option" where
  \<comment> \<open>the \<open>while True\<close> loop; \<open>None\<close> when it never returns\<close>
  "probe ex base_path nm ext counter =
     (let new_path = candidate base_path nm ext counter
      in if \<not> ex new_path then Some new_path else probe ex base_path nm ext (counter + 1))"

declare probe.simps [code]

definition generate_unique_filename :: "(path \<Rightarrow> bool) \<Rightarrow> path \<Rightarrow> string \<Rightarrow> path option" where
  \<comment> \<open>\<open>ex\<close> is \<open>Path.exists\<close> on the file system at call time\<close>
  "generate_unique_filename ex base_path filename =
     (let p = div_str base_path filename
      in if \<not> ex p then Some p else probe ex base_path (stem p) (suffix_of p) 1)"

definition numbered_name :: "string \<Rightarrow> nat \<Rightarrow> string" where
  \<comment> \<open>the file name itself, then \<open>{stem}_{i}{ext}\<close> for \<open>i = 1, 2, ...\<close>\<close>
  "numbered_name nm i =
     (if i = 0 then nm
      else stem (Path False [nm]) @ ''_'' @ str_nat i @ suffix_of (Path False [nm]))"

section \<open>Reader\<close>

record file_data =
  path :: string
  content :: string

definition process_file_try :: "config \<Rightarrow> filesystem \<Rightarrow> path \<Rightarrow> error + file_data" where
  \<comment> \<open>the body of the \<open>try\<close> block: the file is read first, the relative path is computed
     when the result is built\<close>
  "process_file_try cfg fs file_path =
     (case read_text fs file_path of
        Inl e \<Rightarrow> Inl e
      | Inr c \<Rightarrow>
          (case relative_to file_path (source_dir cfg) of
             Inl e \<Rightarrow> Inl e
           | Inr rel \<Rightarrow> Inr \<lparr>path = str_path rel, content = c\<rparr>))"

definition process_file :: "config \<Rightarrow> filesystem \<Rightarrow> path \<Rightarrow> error + file_data option" where
  \<comment> \<open>\<open>Inl\<close>: an exception leaves the function. The handler \<open>except Exception\<close> turns every
     error of the body into the result \<open>None\<close>.\<close>
  "process_file cfg fs file_path =
     (case process_file_try cfg fs file_path of
        Inl e \<Rightarrow> Inr None
      | Inr d \<Rightarrow> Inr (Some d))"

section \<open>Writer\<close>

record state =
  fs :: filesystem
  processed_files :: "path list"

definition resolve_output_path :: "config \<Rightarrow> filesystem \<Rightarrow> file_data \<Rightarrow> path option" where
  \<comment> \<open>the destination of a record; \<open>None\<close> when the probe loop never returns\<close>
  "resolve_output_path cfg fs0 d =
     (if mirror_dir_structure cfg then Some (joinpath (output_dir cfg) (Path_of_str (path d)))
      else
        (let output_path = div_str (output_dir cfg) (name (Path_of_str (path d)))
         in generate_unique_filename (exists fs0) (output_dir cfg) (name output_path)))"

definition write_output_file :: "config \<Rightarrow> state \<Rightarrow> file_data option \<Rightarrow> state option" where
  \<comment> \<open>the result is the state the function returns in; \<open>None\<close> when it never returns. Every
     error inside the \<open>try\<close> block is caught: what was done before it stays done.\<close>
  "write_output_file cfg st file_data =
     (case file_data of
        None \<Rightarrow> Some st
      | Some d \<Rightarrow>
          (case resolve_output_path cfg (fs st) d of
             None \<Rightarrow> None
           | Some output_path \<Rightarrow>
               Some (case mkdir_parents_exist_ok (fs st) (parent output_path) of
                       Inl e \<Rightarrow> st
                     | Inr fs1 \<Rightarrow>
                         (case write_text fs1 output_path (content d) of
                            Inl e \<Rightarrow> st\<lparr>fs := fs1\<rparr>
                          | Inr fs2 \<Rightarrow>
                              st\<lparr>fs := fs2,
                                 processed_files := processed_files st @ [output_path]\<rparr>))))"

section \<open>Text artifacts\<close>

definition newline :: string where
  "newline = [CHR 0x0A]"

definition absolute :: "filesystem \<Rightarrow> path \<Rightarrow> path" where
  \<comment> \<open>\<open>p.absolute()\<close>\<close>
  "absolute fs0 p = Path True (resolve fs0 p)"

definition write_artifact :: "config \<Rightarrow> filesystem \<Rightarrow> string \<Rightarrow> string \<Rightarrow> filesystem \<times> bool" where
  \<comment> \<open>create the text-output directory and write one artifact into it; the flag tells
     whether both succeeded\<close>
  "write_artifact cfg fs0 file_name text =
     (case mkdir_parents_exist_ok fs0 (text_output cfg) of
        Inl e \<Rightarrow> (fs0, False)
      | Inr fs1 \<Rightarrow>
          (case write_text fs1 (div_str (absolute fs1 (text_output cfg)) file_name) text of
             Inl e \<Rightarrow> (fs1, False)
           | Inr fs2 \<Rightarrow> (fs2, True)))"

definition block :: "path \<Rightarrow> string \<Rightarrow> string" where
  \<comment> \<open>\<open>f"File: {file_path}\\n{f.read()}\\n\\n"\<close>\<close>
  "block file_path c = ''File: '' @ str_path file_path @ newline @ c @ newline @ newline"


fun combined_content :: "filesystem \<Rightarrow> path list \<Rightarrow> error + string list" where
  \<comment> \<open>the loop over \<open>processed_files\<close>; the first file that cannot be read ends it\<close>
  "combined_content fs0 [] = Inr []"
| "combined_content fs0 (file_path # rest) =
     (case read_text fs0 file_path of
        Inl e \<Rightarrow> Inl e
      | Inr c \<Rightarrow>
          (case combined_content fs0 rest of
             Inl e \<Rightarrow> Inl e
           | Inr blocks \<Rightarrow> Inr (block file_path c # blocks)))"

definition generate_combined_output :: "config \<Rightarrow> state \<Rightarrow> state \<times> string" where
  "generate_combined_output cfg st =
     (case combined_content (fs st) (processed_files st) of
        Inl e \<Rightarrow> (st, [])
      | Inr blocks \<Rightarrow>
          (let combined_text = concat blocks;
               (fs1, ok) = write_artifact cfg (fs st) ''combined.txt'' combined_text
           in (st\<lparr>fs := fs1\<rparr>, if ok then combined_text else [])))"

section \<open>Tree renderer\<close>

definition lower_char :: "char \<Rightarrow> char" where
  \<comment> \<open>\<open>str.lower\<close> on one character, for ASCII; other bytes are left alone\<close>
  "lower_char c =
     (if CHR ''A'' \<le> c \<and> c \<le> CHR ''Z'' then char_of (of_char c + (32::nat)) else c)"

definition lower :: "string \<Rightarrow> string" where
  "lower s = map lower_char s"

definition sort_entries :: "(string \<times> node) list \<Rightarrow> (string \<times> node) list" where
  \<comment> \<open>\<open>sorted(path.iterdir(), key=lambda p: (p.is_file(), p.name.lower()))\<close>: a stable sort\<close>
  "sort_entries es = sort_key (\<lambda>(n, c). (is_file c, lower n)) es"

definition iterdir :: "node option \<Rightarrow> error + (string \<times> node) list" where
  \<comment> \<open>the entries of what is found at a path\<close>
  "iterdir nd =
     (case nd of
        None \<Rightarrow> Inl FileNotFoundError
      | Some (File _) \<Rightarrow> Inl NotADirectoryError
      | Some (Dir listable es) \<Rightarrow> if listable then Inr es else Inl PermissionError)"

definition tee :: string where
  \<comment> \<open>the connector of a branch that is not the last: U+251C U+2500 U+2500 and a space\<close>
  "tee = [CHR 0xE2, CHR 0x94, CHR 0x9C, CHR 0xE2, CHR 0x94, CHR 0x80, CHR 0xE2, CHR 0x94, CHR 0x80, CHR 0x20]"

definition ell :: string where
  \<comment> \<open>the connector of the last branch: U+2514 U+2500 U+2500 and a space\<close>
  "ell = [CHR 0xE2, CHR 0x94, CHR 0x94, CHR 0xE2, CHR 0x94, CHR 0x80, CHR 0xE2, CHR 0x94, CHR 0x80, CHR 0x20]"

definition bar :: string where
  \<comment> \<open>the prefix extension below a branch that is not the last: U+2502 and three spaces\<close>
  "bar = [CHR 0xE2, CHR 0x94, CHR 0x82, CHR 0x20, CHR 0x20, CHR 0x20]"

definition blank :: string where
  \<comment> \<open>the prefix extension below the last branch: four spaces\<close>
  "blank = [CHR 0x20, CHR 0x20, CHR 0x20, CHR 0x20]"

fun weight :: "node \<Rightarrow> nat" where
  "weight (File _) = 0"
| "weight (Dir _ es) = Suc (sum_list (map (\<lambda>(n, c). Suc (weight c)) es))"

lemma sum_list_insort_key:
  "sum_list (map g (insort_key f x xs)) = (g x :: nat) + sum_list (map g xs)"
  by (induction xs) auto

lemma sum_list_sort_key: "sum_list (map g (sort_key f xs)) = (sum_list (map g xs) :: nat)"
  by (induction xs) (auto simp: sum_list_insort_key)

lemma sum_list_enumerate:
  "sum_list (map (\<lambda>(i, e). g e) (enumerate k xs)) = (sum_list (map g xs) :: nat)"
  by (induction xs arbitrary: k) auto

function generate_tree :: "config \<Rightarrow> path \<Rightarrow> node option \<Rightarrow> string \<Rightarrow> error + string list"
  and tree_loop :: "config \<Rightarrow> path \<Rightarrow> string \<Rightarrow> nat \<Rightarrow> (nat \<times> string \<times> node) list \<Rightarrow> error + string list"
where
  "generate_tree cfg p nd pfx =
     (if name p \<in> ignored_dirs cfg then Inr []
      else
        (case relative_to p (text_output cfg) of
           Inl e \<Rightarrow> Inr []
         | Inr _ \<Rightarrow>
             (case iterdir nd of
                Inl e \<Rightarrow> if e = PermissionError then Inr [] else Inl e
              | Inr es \<Rightarrow>
                  tree_loop cfg p pfx (length (sort_entries es))
                    (enumerate 0 (sort_entries es)))))"
| "tree_loop cfg p pfx len [] = Inr []"
| "tree_loop cfg p pfx len ((i, n, c) # rest) =
     (if n \<in> ignored_dirs cfg then tree_loop cfg p pfx len rest
      else
        (case (if is_dir c
               then generate_tree cfg (child p n) (Some c)
                      (pfx @ (if Suc i = len then blank else bar))
               else Inr []) of
           Inl e \<Rightarrow> Inl e
         | Inr sub \<Rightarrow>
             (case tree_loop cfg p pfx len rest of
                Inl e \<Rightarrow> Inl e
              | Inr later \<Rightarrow>
                  Inr ((pfx @ (if Suc i = len then ell else tee) @ n) # sub @ later))))"
  by pat_completeness auto
termination
proof (relation "measure (\<lambda>x. case x of
    Inl (cfg, p, nd, pfx) \<Rightarrow> (case nd of None \<Rightarrow> 0 | Some n \<Rightarrow> weight n)
  | Inr (cfg, p, pfx, len, xs) \<Rightarrow> sum_list (map (\<lambda>(i, n, c). Suc (weight c)) xs))")
  show "wf (measure (\<lambda>x. case x of
    Inl (cfg, p, nd, pfx) \<Rightarrow> (case nd of None \<Rightarrow> 0 | Some n \<Rightarrow> weight n)
  | Inr (cfg, p, pfx, len, xs) \<Rightarrow> sum_list (map (\<lambda>(i, n, c). Suc (weight c)) xs)))"
    by simp
next
  fix cfg :: config and p :: path and nd :: "node option" and pfx :: string
    and x2 :: path and es :: "(string \<times> node) list"
  assume "iterdir nd = Inr es"
  then obtain l where "nd = Some (Dir l es)"
    by (auto simp: iterdir_def split: option.splits node.splits if_splits)
  then show "(Inr (cfg, p, pfx, length (sort_entries es), enumerate 0 (sort_entries es)),
              Inl (cfg, p, nd, pfx))
      \<in> measure (\<lambda>x. case x of
    Inl (cfg, p, nd, pfx) \<Rightarrow> (case nd of None \<Rightarrow> 0 | Some n \<Rightarrow> weight n)
  | Inr (cfg, p, pfx, len, xs) \<Rightarrow> sum_list (map (\<lambda>(i, n, c). Suc (weight c)) xs))"
    by (simp add: sum_list_enumerate sort_entries_def sum_list_sort_key)
qed simp_all

definition entry_line :: "config \<Rightarrow> string \<Rightarrow> string \<Rightarrow> bool" where
  \<comment> \<open>a line of a rendering started with prefix \<open>pfx\<close>: the prefix, extensions for the levels
     below, a connector, and a name that is not ignored\<close>
  "entry_line cfg pfx line =
     (\<exists>exts c n. line = pfx @ concat exts @ c @ n \<and> set exts \<subseteq> {bar, blank}
        \<and> c \<in> {tee, ell} \<and> n \<notin> ignored_dirs cfg)"

definition generate_tree_output :: "config \<Rightarrow> state \<Rightarrow> state \<times> string" where
  "generate_tree_output cfg st =
     (case generate_tree cfg (source_dir cfg) (stat (fs st) (source_dir cfg)) [] of
        Inl e \<Rightarrow> (st, [])
      | Inr tree_content \<Rightarrow>
          (let tree_text = join newline tree_content;
               (fs1, ok) = write_artifact cfg (fs st) ''combined.tree.txt'' tree_text
           in (st\<lparr>fs := fs1\<rparr>, if ok then tree_text else [])))"

section \<open>Pipeline\<close>

record processing_results =
  tree_output :: string
  combined_output :: string

definition clear_output_dir :: "config \<Rightarrow> filesystem \<Rightarrow> error + filesystem" where
  \<comment> \<open>delete the output root if it exists, then create it\<close>
  "clear_output_dir cfg fs0 =
     (case (if exists fs0 (output_dir cfg) then rmtree fs0 (output_dir cfg) else Inr fs0) of
        Inl e \<Rightarrow> Inl e
      | Inr fs1 \<Rightarrow> mkdir_parents fs1 (output_dir cfg))"

fun write_results :: "config \<Rightarrow> state \<Rightarrow> (error + file_data option) list \<Rightarrow> (error + state) option" where
  \<comment> \<open>the loop over \<open>executor.map(self.process_file, files_to_process)\<close>: the results arrive
     in the order of the submitted paths; a result that is an exception is raised here\<close>
  "write_results cfg st [] = Some (Inr st)"
| "write_results cfg st (r # rs) =
     (case r of
        Inl e \<Rightarrow> Some (Inl e)
      | Inr d \<Rightarrow>
          (case write_output_file cfg st d of
             None \<Rightarrow> None
           | Some st1 \<Rightarrow> write_results cfg st1 rs))"

definition process_directory :: "config \<Rightarrow> state \<Rightarrow> (error + state \<times> processing_results) option" where
  \<comment> \<open>the method, on the processor's state (the file system and \<open>self.processed_files\<close>).
     \<open>None\<close>: the run never returns; \<open>Some (Inl e)\<close>: the error is logged and raised again.
     The files are read on the file system as it is after the output root is cleared: the
     writes that may overlap the reads only create files under the output root, and no
     collected path lies there.\<close>
  "process_directory cfg st =
     (case clear_output_dir cfg (fs st) of
        Inl e \<Rightarrow> Some (Inl e)
      | Inr fs1 \<Rightarrow>
          (let collected = (case stat fs1 (source_dir cfg) of
                              None \<Rightarrow> []
                            | Some src \<Rightarrow> files_to_process cfg src)
           in if max_workers cfg \<le> 0 then Some (Inl ValueError)
              else
                (case write_results cfg (st\<lparr>fs := fs1\<rparr>)
                        (map (process_file cfg fs1) collected) of
                   None \<Rightarrow> None
                 | Some (Inl e) \<Rightarrow> Some (Inl e)
                 | Some (Inr st1) \<Rightarrow>
                     (let (st2, tree_text) = generate_tree_output cfg st1;
                          (st3, combined_text) = generate_combined_output cfg st2
                      in Some (Inr (st3,
                           \<lparr>tree_output = tree_text, combined_output = combined_text\<rparr>))))))"

definition log_file :: path where
  "log_file = Path False [''file_processor.log'']"

definition setup_logging :: "filesystem \<Rightarrow> error + filesystem" where
  \<comment> \<open>the constructor: \<open>logging.FileHandler('file_processor.log')\<close> opens the file in the
     working directory for appending, and creates it when it is absent\<close>
  "setup_logging fs0 =
     (case stat fs0 log_file of
        Some (Dir _ _) \<Rightarrow> Inl IsADirectoryError
      | Some (File _) \<Rightarrow> Inr fs0
      | None \<Rightarrow>
          (case put (resolve fs0 log_file) (File (Some [])) (root_dir fs0) of
             None \<Rightarrow> Inl FileNotFoundError
           | Some r \<Rightarrow> Inr (fs0\<lparr>root_dir := r\<rparr>)))"

definition append_log :: "string \<Rightarrow> filesystem \<Rightarrow> filesystem" where
  \<comment> \<open>the records the handler appended to the log file, as one text\<close>
  "append_log logged fs0 =
     (case stat fs0 log_file of
        Some (File (Some c)) \<Rightarrow>
          (case put (resolve fs0 log_file) (File (Some (c @ logged))) (root_dir fs0) of
             None \<Rightarrow> fs0
           | Some r \<Rightarrow> fs0\<lparr>root_dir := r\<rparr>)
      | _ \<Rightarrow> fs0)"

definition process_files :: "config \<Rightarrow> string \<Rightarrow> filesystem \<Rightarrow> (error + filesystem \<times> processing_results) option" where
  \<comment> \<open>the entry point, for a configuration already loaded: a fresh processor is constructed
     (the log file is opened, the list of processed files is empty) and runs once. \<open>logged\<close>
     is the text of the log records of this run, which carry the time of day; they are
     appended here when the run is over, which gives the results of every run that does not
     read its own log file while it is being written. Returned with the results: the file
     system the run leaves.\<close>
  "process_files cfg logged fs0 =
     (case setup_logging fs0 of
        Inl e \<Rightarrow> Some (Inl e)
      | Inr fs1 \<Rightarrow>
          (case process_directory cfg \<lparr>fs = fs1, processed_files = []\<rparr> of
             None \<Rightarrow> None
           | Some (Inl e) \<Rightarrow> Some (Inl e)
           | Some (Inr (st, results)) \<Rightarrow> Some (Inr (append_log logged (fs st), results))))"

definition separate :: "string list \<Rightarrow> string list \<Rightarrow> bool" where
  \<comment> \<open>neither place lies at or under the other\<close>
  "separate xs ys = (\<not> prefix xs ys \<and> \<not> prefix ys xs)"

definition artifact :: "config \<Rightarrow> filesystem \<Rightarrow> string \<Rightarrow> path" where
  \<comment> \<open>\<open>self.config.text_output.absolute() / file_name\<close>\<close>
  "artifact cfg fs0 file_name = div_str (absolute fs0 (text_output cfg)) file_name"

definition layout_apart :: "config \<Rightarrow> filesystem \<Rightarrow> bool" where
  \<comment> \<open>the source root, the output root, the two artifacts and the log file are apart from
     each other\<close>
  "layout_apart cfg fs0 =
     (let S = resolve fs0 (source_dir cfg); D = resolve fs0 (output_dir cfg);
          A1 = resolve fs0 (artifact cfg fs0 ''combined.tree.txt'');
          A2 = resolve fs0 (artifact cfg fs0 ''combined.txt'');
          L = resolve fs0 log_file
      in separate S D \<and> separate S A1 \<and> separate S A2 \<and> separate S L
         \<and> separate D A1 \<and> separate D A2 \<and> separate D L
         \<and> separate A1 L \<and> separate A2 L)"

fun valid_names :: "node \<Rightarrow> bool" where
  \<comment> \<open>every entry, at every level, has a name a directory entry can have\<close>
  "valid_names (File _) = True"
| "valid_names (Dir _ es) = (\<forall>(n, c) \<in> set es. valid_name n \<and> valid_names c)"

definition plain_record :: "file_data \<Rightarrow> bool" where
  \<comment> \<open>the record's path is a relative path of one or more file names\<close>
  "plain_record d =
     (\<exists>ns. ns \<noteq> [] \<and> (\<forall>n \<in> set ns. valid_name n) \<and> Path_of_str (path d) = Path False ns)"

section \<open>Example inputs\<close>

definition cfg_nested_ext :: config where
  "cfg_nested_ext = \<lparr> extensions = {''rc/a.py''}, ignored_dirs = {}, ignored_files = {},
     source_dir = Path False [], output_dir = Path False [''output''],
     text_output = Path False [], mirror_dir_structure = False, max_workers = 4 \<rparr>"

definition cfg_py :: config where
  "cfg_py = \<lparr> extensions = {''.py''}, ignored_dirs = {''venv''}, ignored_files = {''setup.py''},
     source_dir = Path False [], output_dir = Path False [''output''],
     text_output = Path False [], mirror_dir_structure = False, max_workers = 4 \<rparr>"


definition out_dir :: path where
  "out_dir = Path False [''output'']"

definition taken_x :: "path \<Rightarrow> bool" where
  \<comment> \<open>an output directory that holds \<open>x.py\<close> and \<open>x_1.py\<close>\<close>
  "taken_x p = (p \<in> {Path False [''output'', ''x.py''], Path False [''output'', ''x_1.py'']})"

definition tree_mixed :: node where
  "tree_mixed = Dir True
     [(''b.txt'', File (Some ''B'')),
      (''Zeta'', Dir True [(''z.py'', File (Some ''z''))]),
      (''a.py'', File (Some ''A'')),
      (''venv'', Dir True [(''lib.py'', File (Some ''L''))]),
      (''alpha'', Dir True [(''in.py'', File (Some ''i'')), (''sub'', Dir False [(''q'', File None)])])]"

definition tree_src_venv :: node where
  \<comment> \<open>a directory that holds the directories \<open>src\<close> and \<open>venv\<close>, both empty\<close>
  "tree_src_venv = Dir True [(''src'', Dir True []), (''venv'', Dir True [])]"

definition cfg_src :: config where
  "cfg_src = \<lparr> extensions = {''.py''}, ignored_dirs = {}, ignored_files = {},
     source_dir = Path False [''src''], output_dir = Path False [''output''],
     text_output = Path False [], mirror_dir_structure = False, max_workers = 4 \<rparr>"

definition fs_two_roots :: filesystem where
  \<comment> \<open>\<open>src/a.py\<close>, \<open>src/bad.py\<close> (not decodable) and \<open>other/a.py\<close>, seen from the directory
     that holds \<open>src\<close> and \<open>other\<close>\<close>
  "fs_two_roots = \<lparr> root_dir = Dir True
       [(''src'', Dir True [(''a.py'', File (Some ''A'')), (''bad.py'', File None)]),
        (''other'', Dir True [(''a.py'', File (Some ''B''))])],
     cwd = [] \<rparr>"

definition cfg_mirror :: config where
  "cfg_mirror = cfg_src\<lparr>mirror_dir_structure := True\<rparr>"

definition rec_c :: file_data where
  "rec_c = \<lparr>path = ''sub/c.py'', content = ''C''\<rparr>"

definition st_out :: state where
  \<comment> \<open>an empty output directory, nothing processed yet\<close>
  "st_out = \<lparr>fs = \<lparr>root_dir = Dir True [(''output'', Dir True [])], cwd = []\<rparr>,
              processed_files = []\<rparr>"

definition st_blocked :: state where
  \<comment> \<open>the output root is a regular file\<close>
  "st_blocked = \<lparr>fs = \<lparr>root_dir = Dir True [(''output'', File (Some ''x''))], cwd = []\<rparr>,
                  processed_files = []\<rparr>"



definition three_x :: "file_data list" where
  \<comment> \<open>three records whose paths share the base name \<open>x.py\<close>\<close>
  "three_x = [\<lparr>path = ''x.py'', content = ''one''\<rparr>, \<lparr>path = ''sub/x.py'', content = ''two''\<rparr>,
              \<lparr>path = ''deep/er/x.py'', content = ''three''\<rparr>]"

definition cfg_default :: config where
  \<comment> \<open>the defaults of \<open>load_config\<close>, with the extension \<open>.py\<close>\<close>
  "cfg_default = \<lparr> extensions = {''.py''}, ignored_dirs = {}, ignored_files = {},
     source_dir = Path False [], output_dir = Path False [''output''],
     text_output = Path False [], mirror_dir_structure = False, max_workers = 4 \<rparr>"

definition fs_one_file :: filesystem where
  \<comment> \<open>a working directory that holds \<open>a.py\<close>\<close>
  "fs_one_file = \<lparr>root_dir = Dir True [(''a.py'', File (Some ''A''))], cwd = []\<rparr>"

definition tree_first :: string where
  "tree_first = join newline [tee @ ''output'', bar @ ell @ ''a.py'', ell @ ''a.py'']"

definition tree_second :: string where
  "tree_second = join newline [tee @ ''output'', bar @ ell @ ''a.py'', tee @ ''a.py'',
     tee @ ''combined.tree.txt'', ell @ ''combined.txt'']"

definition combined_one :: string where
  "combined_one = ''File: output/a.py'' @ newline @ ''A'' @ newline @ newline"

definition fs_first_run :: filesystem where
  \<comment> \<open>what a first run with the default configuration leaves of \<open>fs_one_file\<close>\<close>
  "fs_first_run = \<lparr>root_dir = Dir True
       [(''a.py'', File (Some ''A'')),
        (''output'', Dir True [(''a.py'', File (Some ''A''))]),
        (''combined.tree.txt'', File (Some tree_first)),
        (''combined.txt'', File (Some combined_one))],
     cwd = []\<rparr>"

definition fs_second_run :: filesystem where
  \<comment> \<open>what the second run leaves\<close>
  "fs_second_run = \<lparr>root_dir = Dir True
       [(''a.py'', File (Some ''A'')),
        (''combined.tree.txt'', File (Some tree_second)),
        (''combined.txt'', File (Some combined_one)),
        (''output'', Dir True [(''a.py'', File (Some ''A''))])],
     cwd = []\<rparr>"

definition cfg_text_in_output :: config where
  \<comment> \<open>the artifacts go to the output root\<close>
  "cfg_text_in_output = \<lparr> extensions = {''.py''}, ignored_dirs = {}, ignored_files = {},
     source_dir = Path False [''src''], output_dir = Path False [''out''],
     text_output = Path False [''out''], mirror_dir_structure = False, max_workers = 4 \<rparr>"

definition src_tree :: node where
  "src_tree = Dir True [(''a.py'', File (Some ''A'')), (''b.txt'', File (Some ''B'')),
                        (''sub'', Dir True [(''c.py'', File (Some ''C''))])]"

definition fs_src_only :: filesystem where
  "fs_src_only = \<lparr>root_dir = Dir True [(''src'', src_tree)], cwd = []\<rparr>"

definition combined_two :: string where
  "combined_two = ''File: out/a.py'' @ newline @ ''A'' @ newline @ newline
     @ ''File: out/c.py'' @ newline @ ''C'' @ newline @ newline"

definition out_after_run :: node where
  "out_after_run = Dir True
     [(''a.py'', File (Some ''A'')), (''c.py'', File (Some ''C'')),
      (''combined.tree.txt'', File (Some [])), (''combined.txt'', File (Some combined_two))]"

definition fs_src_rerun :: filesystem where
  \<comment> \<open>what a run with \<open>cfg_text_in_output\<close> leaves of \<open>fs_src_only\<close>\<close>
  "fs_src_rerun = \<lparr>root_dir = Dir True [(''src'', src_tree), (''out'', out_after_run)], cwd = []\<rparr>"

definition out_stale :: node where
  "out_stale = Dir True [(''old.py'', File (Some ''old'')), (''x'', Dir True [(''y.py'', File None)])]"

definition st_after_first_call :: state where
  \<comment> \<open>the processor after its first call of \<open>process_directory\<close> on \<open>fs_src_only\<close>\<close>
  "st_after_first_call = \<lparr>fs = fs_src_rerun,
     processed_files = [Path False [''out'', ''a.py''], Path False [''out'', ''c.py'']]\<rparr>"

definition st_after_second_call :: state where
  "st_after_second_call = \<lparr>fs = \<lparr>root_dir = Dir True [(''src'', src_tree),
       (''out'', Dir True
          [(''a.py'', File (Some ''A'')), (''c.py'', File (Some ''C'')),
           (''combined.tree.txt'', File (Some [])),
           (''combined.txt'', File (Some (combined_two @ combined_two)))])], cwd = []\<rparr>,
     processed_files = [Path False [''out'', ''a.py''], Path False [''out'', ''c.py''],
                        Path False [''out'', ''a.py''], Path False [''out'', ''c.py'']]\<rparr>"





section \<open>Facts about strings and paths\<close>

lemma endswith_suffix: "endswith s e \<longleftrightarrow> suffix e s"
proof
  assume "endswith s e"
  then have "s = take (length s - length e) s @ e"
    by (metis append_take_drop_id endswith_def)
  then show "suffix e s"
    by (metis suffixI)
next
  assume "suffix e s"
  then obtain zs where "s = zs @ e"
    by (auto simp: suffix_def)
  then show "endswith s e"
    by (simp add: endswith_def)
qed

lemma join_last:
  "ns \<noteq> [] \<Longrightarrow> \<exists>pre. join ''/'' ns = pre @ last ns \<and> (pre = [] \<or> last pre = CHR ''/'')"
proof (induction ns rule: induct_list012)
  case (3 x y ys)
  then obtain pre where "join ''/'' (y # ys) = pre @ last (y # ys)"
    and "pre = [] \<or> last pre = CHR ''/''"
    by auto
  then have "join ''/'' (x # y # ys) = (x @ ''/'' @ pre) @ last (x # y # ys)"
    and "last (x @ ''/'' @ pre) = CHR ''/''"
    by auto
  then show ?case
    by blast
qed auto

lemma suffix_after_separator:
  assumes "CHR ''/'' \<notin> set e" and "pre = [] \<or> last pre = CHR ''/''"
  shows "suffix e (pre @ n) \<longleftrightarrow> suffix e n"
proof
  assume "suffix e (pre @ n)"
  then consider "suffix e n" | xs where "e = xs @ n" "suffix xs pre"
    by (auto simp: suffix_append)
  then show "suffix e n"
  proof cases
    case 2
    show ?thesis
    proof (cases "xs = []")
      case True
      with 2 show ?thesis by simp
    next
      case False
      from 2 obtain zs where "pre = zs @ xs"
        by (auto simp: suffix_def)
      with False have "last pre = last xs" and "pre \<noteq> []"
        by auto
      with assms(2) False have "CHR ''/'' \<in> set xs"
        by (metis last_in_set)
      with 2 assms(1) show ?thesis
        by simp
    qed
  qed
next
  assume "suffix e n"
  then show "suffix e (pre @ n)"
    by (rule suffix_appendI)
qed

lemma endswith_str_path_name:
  assumes "names p \<noteq> []" and "CHR ''/'' \<notin> set e"
  shows "endswith (str_path p) e \<longleftrightarrow> endswith (name p) e"
proof -
  obtain pre where pre: "join ''/'' (names p) = pre @ last (names p)"
    "pre = [] \<or> last pre = CHR ''/''"
    using join_last[OF assms(1)] by blast
  show ?thesis
  proof (cases "is_absolute p")
    case True
    have "str_path p = (''/'' @ pre) @ name p"
      using True pre(1) assms(1) by (simp add: str_path_def name_def)
    moreover have "''/'' @ pre = [] \<or> last (''/'' @ pre) = CHR ''/''"
      using pre(2) by auto
    ultimately show ?thesis
      using suffix_after_separator[OF assms(2)] by (simp only: endswith_suffix)
  next
    case False
    have "str_path p = pre @ name p"
      using False pre(1) assms(1) by (simp add: str_path_def name_def)
    then show ?thesis
      using suffix_after_separator[OF assms(2) pre(2)] by (simp only: endswith_suffix)
  qed
qed

section \<open>Facts about the traversal\<close>




section \<open>Facts about names and decimal numerals\<close>

lemma split_sep_plain: "CHR ''/'' \<notin> set s \<Longrightarrow> split_sep s = [s]"
  by (induction s) auto

lemma Path_of_str_plain: "valid_name n \<Longrightarrow> Path_of_str n = Path False [n]"
  by (cases n) (auto simp: valid_name_def Path_of_str_def split_sep_plain)

lemma div_str_plain: "valid_name n \<Longrightarrow> div_str p n = child p n"
  by (simp add: div_str_def joinpath_def Path_of_str_plain child_def)

lemma name_child: "name (child p n) = n"
  by (simp add: name_def child_def)

lemma stem_suffix: "stem p @ suffix_of p = name p"
  by (simp add: stem_def suffix_of_def split: option.splits)

lemma stem_subset: "set (stem p) \<subseteq> set (name p)"
  by (auto simp: stem_def split: option.splits if_splits dest: in_set_takeD)

lemma suffix_of_subset: "set (suffix_of p) \<subseteq> set (name p)"
  by (auto simp: suffix_of_def split: option.splits if_splits dest: in_set_dropD)

lemma digit_char_inj: "m < 10 \<Longrightarrow> n < 10 \<Longrightarrow> digit_char m = digit_char n \<Longrightarrow> m = n"
proof -
  assume a: "m < 10" "n < 10" "digit_char m = digit_char n"
  then have "of_char (digit_char m) = (of_char (digit_char n) :: nat)" by simp
  with a(1,2) show "m = n" by simp
qed

lemma digit_char_not_sep: "n < 10 \<Longrightarrow> digit_char n \<noteq> CHR ''/''"
proof
  assume a: "n < 10" "digit_char n = CHR ''/''"
  then have "of_char (digit_char n) = (of_char (CHR ''/'') :: nat)" by simp
  with a(1) show False by simp
qed

lemma str_nat_nonempty: "str_nat n \<noteq> []"
  by (subst str_nat.simps) simp

lemma str_nat_no_sep: "CHR ''/'' \<notin> set (str_nat n)"
proof (induction n rule: str_nat.induct)
  case (1 n)
  show ?case
  proof (cases "n < 10")
    case True
    then show ?thesis using digit_char_not_sep[of n] by (subst str_nat.simps) auto
  next
    case False
    then show ?thesis
      using 1 digit_char_not_sep[of "n mod 10"]
      by (subst str_nat.simps) (auto simp del: digit_char.simps)
  qed
qed

lemma str_nat_inj: "str_nat m = str_nat n \<Longrightarrow> m = n"
proof (induction m arbitrary: n rule: str_nat.induct)
  case (1 m)
  show ?case
  proof (cases "m < 10")
    case True
    note m = this
    show ?thesis
    proof (cases "n < 10")
      case True
      with m "1.prems" show ?thesis
        using digit_char_inj[of m n] by (simp add: str_nat.simps[of m] str_nat.simps[of n] del: digit_char.simps)
    next
      case False
      then have "str_nat n = str_nat (n div 10) @ [digit_char (n mod 10)]"
        by (subst str_nat.simps) simp
      moreover have "str_nat m = [digit_char m]"
        using m by (subst str_nat.simps) simp
      ultimately show ?thesis
        using "1.prems" str_nat_nonempty[of "n div 10"] by (simp del: digit_char.simps)
    qed
  next
    case False
    note m = this
    then have sm: "str_nat m = str_nat (m div 10) @ [digit_char (m mod 10)]"
      by (subst str_nat.simps) simp
    show ?thesis
    proof (cases "n < 10")
      case True
      then have "str_nat n = [digit_char n]" by (subst str_nat.simps) simp
      with sm "1.prems" str_nat_nonempty[of "m div 10"] show ?thesis
        by (simp del: digit_char.simps)
    next
      case False
      then have sn: "str_nat n = str_nat (n div 10) @ [digit_char (n mod 10)]"
        by (subst str_nat.simps) simp
      from sm sn "1.prems" have "str_nat (m div 10) = str_nat (n div 10)"
        and d: "digit_char (m mod 10) = digit_char (n mod 10)"
        by (simp_all del: digit_char.simps)
      with "1.IH"[OF m] have "m div 10 = n div 10" by blast
      moreover from d have "m mod 10 = n mod 10"
        using digit_char_inj[of "m mod 10" "n mod 10"] by simp
      ultimately show ?thesis
        by (metis div_mult_mod_eq)
    qed
  qed
qed

section \<open>Facts about the unique-name generator\<close>

lemma probe_finds:
  "\<not> ex (candidate b nm ext n) \<Longrightarrow> c \<le> n \<Longrightarrow>
   (\<forall>m. c \<le> m \<and> m < n \<longrightarrow> ex (candidate b nm ext m)) \<Longrightarrow>
   probe ex b nm ext c = Some (candidate b nm ext n)"
proof (induction "n - c" arbitrary: c)
  case 0
  then have "c = n" by simp
  with 0 show ?case by (subst probe.simps) simp
next
  case (Suc k)
  then have "c < n" by simp
  with Suc.prems have "ex (candidate b nm ext c)" by simp
  moreover have "probe ex b nm ext (c + 1) = Some (candidate b nm ext n)"
    using Suc.hyps(2) Suc.prems \<open>c < n\<close> by (intro Suc.hyps(1)) auto
  ultimately show ?case by (subst probe.simps) simp
qed

lemma probe_terminates:
  assumes "finite {n. ex (candidate b nm ext n)}"
  shows "\<exists>n\<ge>c. probe ex b nm ext c = Some (candidate b nm ext n) \<and> \<not> ex (candidate b nm ext n)
     \<and> (\<forall>m. c \<le> m \<and> m < n \<longrightarrow> ex (candidate b nm ext m))"
proof -
  have "\<exists>n\<ge>c. \<not> ex (candidate b nm ext n)"
  proof (rule ccontr)
    assume "\<not> (\<exists>n\<ge>c. \<not> ex (candidate b nm ext n))"
    then have "{n. c \<le> n} \<subseteq> {n. ex (candidate b nm ext n)}" by auto
    then have "finite {n. c \<le> n}" using assms finite_subset by blast
    then obtain m where "\<forall>n\<in>{n. c \<le> n}. n \<le> m"
      by (auto simp: finite_nat_set_iff_bounded_le)
    then have "c \<le> Suc (max c m) \<longrightarrow> Suc (max c m) \<le> m" by blast
    then show False by arith
  qed
  then obtain n0 where n0: "c \<le> n0 \<and> \<not> ex (candidate b nm ext n0)" by blast
  define n where "n = (LEAST n. c \<le> n \<and> \<not> ex (candidate b nm ext n))"
  have n: "c \<le> n \<and> \<not> ex (candidate b nm ext n)"
    unfolding n_def using n0 by (rule LeastI)
  have least: "\<And>m. c \<le> m \<Longrightarrow> m < n \<Longrightarrow> ex (candidate b nm ext m)"
    unfolding n_def using not_less_Least by blast
  with n probe_finds[of ex b nm ext n c] show ?thesis by blast
qed

lemma valid_candidate_name:
  "CHR ''/'' \<notin> set nm \<Longrightarrow> CHR ''/'' \<notin> set ext \<Longrightarrow> valid_name (nm @ ''_'' @ str_nat k @ ext)"
  by (cases nm) (auto simp: valid_name_def str_nat_no_sep)

lemma candidate_child:
  "CHR ''/'' \<notin> set nm \<Longrightarrow> CHR ''/'' \<notin> set ext \<Longrightarrow>
     candidate b nm ext k = child b (nm @ ''_'' @ str_nat k @ ext)"
  unfolding candidate_def by (rule div_str_plain) (rule valid_candidate_name)

lemma candidate_eq_iff:
  "CHR ''/'' \<notin> set nm \<Longrightarrow> CHR ''/'' \<notin> set ext \<Longrightarrow>
     candidate b nm ext j = candidate b nm ext k \<longleftrightarrow> j = k"
  by (auto simp: candidate_child child_def dest: str_nat_inj)

lemma candidate_ne_plain:
  "CHR ''/'' \<notin> set nm \<Longrightarrow> CHR ''/'' \<notin> set ext \<Longrightarrow> candidate b nm ext k \<noteq> child b (nm @ ext)"
  by (simp add: candidate_child child_def)

lemma finite_existing_candidates:
  assumes "CHR ''/'' \<notin> set nm" "CHR ''/'' \<notin> set ext" "finite S"
  shows "finite {n. candidate b nm ext n \<in> S}"
proof -
  have "inj (candidate b nm ext)"
    using assms(1,2) by (auto simp: inj_def candidate_eq_iff)
  then have "finite (candidate b nm ext -` S)"
    using assms(3) by (rule finite_vimageI[rotated])
  then show ?thesis by (simp add: vimage_def)
qed

section \<open>Facts about the tree renderer\<close>

lemma entry_line_here:
  "n \<notin> ignored_dirs cfg \<Longrightarrow> c \<in> {tee, ell} \<Longrightarrow> entry_line cfg pfx (pfx @ c @ n)"
  unfolding entry_line_def by (intro exI[of _ "[]"] exI[of _ c] exI[of _ n]) simp

lemma entry_line_below:
  assumes "entry_line cfg (pfx @ e) line" and "e \<in> {bar, blank}"
  shows "entry_line cfg pfx line"
proof -
  from assms(1) obtain exts c n where
    "line = (pfx @ e) @ concat exts @ c @ n" "set exts \<subseteq> {bar, blank}"
    "c \<in> {tee, ell}" "n \<notin> ignored_dirs cfg"
    unfolding entry_line_def by blast
  with assms(2) show ?thesis
    unfolding entry_line_def by (intro exI[of _ "e # exts"] exI[of _ c] exI[of _ n]) simp
qed

lemma tree_lines_not_ignored:
  "generate_tree cfg p nd pfx = Inr lines \<longrightarrow> (\<forall>line \<in> set lines. entry_line cfg pfx line)"
  "tree_loop cfg p pfx len xs = Inr lines \<longrightarrow> (\<forall>line \<in> set lines. entry_line cfg pfx line)"
proof (induction cfg p nd pfx and cfg p pfx len xs arbitrary: lines and lines
    rule: generate_tree_tree_loop.induct)
  case (1 cfg p nd pfx)
  then show ?case
    by (auto split: sum.splits if_splits)
next
  case (2 cfg p pfx len)
  then show ?case by simp
next
  case (3 cfg p pfx len i n c rest)
  show ?case
  proof (cases "n \<in> ignored_dirs cfg")
    case True
    with 3 show ?thesis by simp
  next
    case False
    show ?thesis
    proof
      assume eq: "tree_loop cfg p pfx len ((i, n, c) # rest) = Inr lines"
      from eq False obtain sub later where
        sub: "(if is_dir c then generate_tree cfg (child p n) (Some c)
                 (pfx @ (if Suc i = len then blank else bar)) else Inr []) = Inr sub"
        and later: "tree_loop cfg p pfx len rest = Inr later"
        and lines: "lines = (pfx @ (if Suc i = len then ell else tee) @ n) # sub @ later"
        by (auto split: sum.splits)
      have "entry_line cfg pfx (pfx @ (if Suc i = len then ell else tee) @ n)"
        using False by (intro entry_line_here) simp_all
      moreover have "\<forall>line \<in> set sub. entry_line cfg pfx line"
      proof
        fix line assume "line \<in> set sub"
        with sub "3.IH"(2)[OF False] have
          "entry_line cfg (pfx @ (if Suc i = len then blank else bar)) line"
          by (auto split: if_splits)
        then show "entry_line cfg pfx line"
          by (rule entry_line_below) simp
      qed
      moreover have "\<forall>line \<in> set later. entry_line cfg pfx line"
        using later "3.IH"(3)[OF False sub] by simp
      ultimately show "\<forall>line \<in> set lines. entry_line cfg pfx line"
        using lines by auto
    qed
  qed
qed

section \<open>Facts about the file system\<close>

lemma lookup_append:
  "lookup (xs @ ys) n = (case lookup xs n of None \<Rightarrow> None | Some m \<Rightarrow> lookup ys m)"
  by (induction xs arbitrary: n) (auto split: node.splits option.splits)

lemma lookup_File: "lookup q (File c) = Some m \<Longrightarrow> q = [] \<and> m = File c"
  by (cases q) auto

lemma finite_lookup: "finite {xs. lookup xs n \<noteq> None}"
proof (induction n)
  case (File c)
  have "{xs. lookup xs (File c) \<noteq> None} \<subseteq> {[]}"
    using lookup_File by auto
  then show ?case
    by (rule finite_subset) simp
next
  case (Dir l es)
  have "{xs. lookup xs (Dir l es) \<noteq> None}
      \<subseteq> insert [] (\<Union>(x, c) \<in> set es. (#) x ` {ys. lookup ys c \<noteq> None})"
  proof
    fix xs assume a: "xs \<in> {xs. lookup xs (Dir l es) \<noteq> None}"
    show "xs \<in> insert [] (\<Union>(x, c) \<in> set es. (#) x ` {ys. lookup ys c \<noteq> None})"
    proof (cases xs)
      case Nil
      then show ?thesis by simp
    next
      case (Cons x ys)
      with a obtain c where c: "map_of es x = Some c" "lookup ys c \<noteq> None"
        by (auto split: option.splits)
      then have "(x, c) \<in> set es" by (simp add: map_of_SomeD)
      with c Cons show ?thesis by auto
    qed
  qed
  moreover have "finite (insert [] (\<Union>(x, c) \<in> set es. (#) x ` {ys. lookup ys c \<noteq> None}))"
    using Dir by (auto simp: snds.simps)
  ultimately show ?case
    by (rule finite_subset)
qed

lemma mkdirs_keeps_files:
  "mkdirs xs n = Some n' \<Longrightarrow> lookup q n = Some (File c) \<Longrightarrow> lookup q n' = Some (File c)"
proof (induction xs arbitrary: n n' q)
  case Nil
  then show ?case by (auto split: node.splits)
next
  case (Cons x xs)
  from Cons.prems(1) obtain l es c' where n: "n = Dir l es"
    and c': "mkdirs xs (case map_of es x of None \<Rightarrow> Dir True [] | Some c \<Rightarrow> c) = Some c'"
    and n': "n' = Dir l (AList.update x c' es)"
    by (auto split: node.splits option.splits)
  from Cons.prems(2) n obtain y ys m where q: "q = y # ys" and m: "map_of es y = Some m"
    and ys: "lookup ys m = Some (File c)"
    by (cases q) (auto split: option.splits)
  show ?case
  proof (cases "y = x")
    case False
    with q m ys n' show ?thesis by (simp add: update_conv')
  next
    case True
    with m c' have "mkdirs xs m = Some c'" by simp
    from Cons.IH[OF this ys] True q n' show ?thesis by (simp add: update_conv')
  qed
qed

lemma put_keeps_files:
  "put xs (File v) n = Some n' \<Longrightarrow> \<forall>l es. lookup xs n \<noteq> Some (Dir l es) \<Longrightarrow>
   lookup q n = Some (File c) \<Longrightarrow> lookup q n' = Some (File (if q = xs then v else c))"
proof (induction xs arbitrary: n n' q c)
  case Nil
  then show ?case by (cases n; cases q) auto
next
  case (Cons x xs)
  from Cons.prems(1) obtain l es c' where n: "n = Dir l es"
    and c': "(if xs = [] then Some (File v)
              else (case map_of es x of None \<Rightarrow> None | Some c \<Rightarrow> put xs (File v) c)) = Some c'"
    and n': "n' = Dir l (AList.update x c' es)"
    by (auto split: node.splits option.splits)
  from Cons.prems(3) n obtain y ys m where q: "q = y # ys" and m: "map_of es y = Some m"
    and ys: "lookup ys m = Some (File c)"
    by (cases q) (auto split: option.splits)
  show ?case
  proof (cases "y = x")
    case False
    with q m ys n' show ?thesis by (simp add: update_conv')
  next
    case True
    note yx = this
    show ?thesis
    proof (cases "xs = []")
      case True
      with Cons.prems(2) n m yx obtain d where "m = File d"
        by (cases m) auto
      with ys have "ys = []" using lookup_File by blast
      with True c' q n' yx show ?thesis by (auto simp: update_conv')
    next
      case False
      with c' m yx have p: "put xs (File v) m = Some c'" by simp
      have "\<forall>l es. lookup xs m \<noteq> Some (Dir l es)"
        using Cons.prems(2) n m yx by simp
      from Cons.IH[OF p this ys] q n' yx show ?thesis by (simp add: update_conv')
    qed
  qed
qed

lemma put_lookup_same: "put xs v n = Some n' \<Longrightarrow> lookup xs n' = Some v"
proof (induction xs arbitrary: n n')
  case Nil
  then show ?case by simp
next
  case (Cons x xs)
  then show ?case
    by (cases "xs = []") (auto simp: update_conv' split: node.splits option.splits)
qed

lemma mkdirs_existing:
  "lookup xs n = Some (Dir l es) \<Longrightarrow> mkdirs xs n = Some n"
proof (induction xs arbitrary: n)
  case Nil
  then show ?case by simp
next
  case (Cons x xs)
  then show ?case
    by (auto simp: update_triv split: node.splits option.splits)
qed

section \<open>Facts about the writer\<close>

lemma split_sep_nonempty: "split_sep s \<noteq> []"
  by (induction s) (auto split: list.splits)

lemma split_sep_append:
  "split_sep (u @ v) = butlast (split_sep u) @ [last (split_sep u) @ hd (split_sep v)] @ tl (split_sep v)"
proof (induction u)
  case Nil
  then show ?case using split_sep_nonempty[of v] by simp
next
  case (Cons c cs)
  obtain w ws where cs: "split_sep cs = w # ws"
    using split_sep_nonempty[of cs] by (cases "split_sep cs") auto
  obtain w' ws' where csv: "split_sep (cs @ v) = w' # ws'"
    using split_sep_nonempty[of "cs @ v"] by (cases "split_sep (cs @ v)") auto
  show ?case
  proof (cases "c = CHR ''/''")
    case True
    then show ?thesis using Cons cs by simp
  next
    case False
    then show ?thesis using Cons cs csv by (cases ws) auto
  qed
qed

lemma split_sep_around:
  assumes "CHR ''/'' \<notin> set m"
  shows "split_sep (u @ m @ v)
      = butlast (split_sep u) @ [last (split_sep u) @ m @ hd (split_sep v)] @ tl (split_sep v)"
proof -
  have "split_sep (m @ v) = [m @ hd (split_sep v)] @ tl (split_sep v)"
    using split_sep_append[of m v] split_sep_plain[OF assms] by simp
  then show ?thesis
    using split_sep_append[of u "m @ v"] by simp
qed

lemma names_numbered:
  "\<exists>X Y A B. \<forall>k. names (Path_of_str (nm @ ''_'' @ str_nat k @ ext))
      = X @ [A @ ''_'' @ str_nat k @ B] @ Y"
proof -
  define keep where "keep = (\<lambda>w::string. w \<noteq> [] \<and> w \<noteq> ''.'')"
  define A where "A = last (split_sep nm)"
  define B where "B = hd (split_sep ext)"
  have all: "split_sep (nm @ ''_'' @ str_nat k @ ext)
      = butlast (split_sep nm) @ [A @ ''_'' @ str_nat k @ B] @ tl (split_sep ext)" for k
    using split_sep_around[of "''_'' @ str_nat k" nm ext]
    by (simp add: str_nat_no_sep A_def B_def)
  have keepW: "keep (A @ ''_'' @ str_nat k @ B)" for k
    unfolding keep_def by (cases A) auto
  have "names (Path_of_str (nm @ ''_'' @ str_nat k @ ext))
      = filter keep (butlast (split_sep nm)) @ [A @ ''_'' @ str_nat k @ B]
          @ filter keep (tl (split_sep ext))" for k
    using keepW[of k] unfolding Path_of_str_def all keep_def by simp
  then show ?thesis by blast
qed

lemma resolve_candidate_inj: "inj (\<lambda>k. resolve fs0 (candidate b nm ext k))"
proof -
  from names_numbered[of nm ext] obtain X Y A B where
    nms: "\<And>k. names (Path_of_str (nm @ ''_'' @ str_nat k @ ext)) = X @ [A @ ''_'' @ str_nat k @ B] @ Y"
    by blast
  have abs: "\<And>k. is_absolute (Path_of_str (nm @ ''_'' @ str_nat k @ ext))
      = is_absolute (Path_of_str (nm @ ''_''))"
    by (cases nm) (simp_all add: Path_of_str_def)
  have "\<exists>pre. \<forall>k. resolve fs0 (candidate b nm ext k) = pre @ X @ [A @ ''_'' @ str_nat k @ B] @ Y"
  proof (cases "is_absolute (Path_of_str (nm @ ''_''))")
    case True
    then have "\<forall>k. resolve fs0 (candidate b nm ext k) = [] @ X @ [A @ ''_'' @ str_nat k @ B] @ Y"
      using abs nms by (simp add: resolve_def candidate_def div_str_def joinpath_def)
    then show ?thesis by blast
  next
    case False
    then have "\<forall>k. resolve fs0 (candidate b nm ext k)
        = (if is_absolute b then names b else cwd fs0 @ names b) @ X @ [A @ ''_'' @ str_nat k @ B] @ Y"
      using abs nms by (simp add: resolve_def candidate_def div_str_def joinpath_def)
    then show ?thesis by blast
  qed
  then obtain pre where
    "\<And>k. resolve fs0 (candidate b nm ext k) = pre @ X @ [A @ ''_'' @ str_nat k @ B] @ Y"
    by blast
  then show ?thesis
    by (auto simp: inj_def dest: str_nat_inj)
qed

lemma finite_existing_numbered: "finite {k. exists fs0 (candidate b nm ext k)}"
proof -
  have "finite ((\<lambda>k. resolve fs0 (candidate b nm ext k)) -` {xs. lookup xs (root_dir fs0) \<noteq> None})"
    using finite_lookup resolve_candidate_inj by (rule finite_vimageI)
  then show ?thesis
    by (simp add: vimage_def exists_def stat_def)
qed

lemma generate_unique_filename_returns:
  "\<exists>p. generate_unique_filename (exists fs0) b filename = Some p \<and> \<not> exists fs0 p"
proof (cases "exists fs0 (div_str b filename)")
  case False
  then show ?thesis
    by (simp add: generate_unique_filename_def)
next
  case True
  from probe_terminates[OF finite_existing_numbered, where c = 1] True show ?thesis
    by (fastforce simp: generate_unique_filename_def Let_def)
qed

lemma resolve_output_path_returns: "\<exists>p. resolve_output_path cfg fs0 d = Some p"
  using generate_unique_filename_returns
  by (fastforce simp: resolve_output_path_def Let_def)

lemma mkdir_keeps_regular:
  "mkdir_parents_exist_ok fs0 p = Inr fs1 \<Longrightarrow> is_regular_file fs0 q \<Longrightarrow> is_regular_file fs1 q"
  by (auto simp: mkdir_parents_exist_ok_def is_regular_file_def stat_def resolve_def
      split: option.splits dest: mkdirs_keeps_files)

lemma write_text_keeps_regular:
  assumes "write_text fs1 p c = Inr fs2" and "is_regular_file fs1 q"
  shows "is_regular_file fs2 q"
proof -
  from assms(1) have nodir: "\<forall>l es. lookup (resolve fs1 p) (root_dir fs1) \<noteq> Some (Dir l es)"
    by (auto simp: write_text_def stat_def split: option.splits node.splits)
  from assms(1) obtain r where r: "put (resolve fs1 p) (File (Some c)) (root_dir fs1) = Some r"
    and fs2: "fs2 = fs1\<lparr>root_dir := r\<rparr>"
    by (auto simp: write_text_def split: option.splits node.splits)
  from assms(2) obtain c0 where "lookup (resolve fs1 q) (root_dir fs1) = Some (File c0)"
    by (auto simp: is_regular_file_def stat_def)
  moreover have "resolve fs2 q = resolve fs1 q"
    using fs2 by (simp add: resolve_def)
  ultimately show ?thesis
    using put_keeps_files[OF r nodir] fs2 by (simp add: is_regular_file_def stat_def)
qed

lemma write_text_read_back:
  assumes "write_text fs1 p c = Inr fs2"
  shows "read_text fs2 p = Inr c"
proof -
  from assms obtain r where r: "put (resolve fs1 p) (File (Some c)) (root_dir fs1) = Some r"
    and fs2: "fs2 = fs1\<lparr>root_dir := r\<rparr>"
    by (auto simp: write_text_def split: option.splits node.splits)
  have "resolve fs2 p = resolve fs1 p"
    using fs2 by (simp add: resolve_def)
  with put_lookup_same[OF r] fs2 show ?thesis
    by (simp add: read_text_def stat_def)
qed

lemma read_text_regular: "read_text fs0 p = Inr c \<Longrightarrow> is_regular_file fs0 p"
  by (auto simp: read_text_def is_regular_file_def split: option.splits node.splits)

section \<open>Facts about the text artifacts\<close>


lemma combined_content_unreadable:
  "p \<in> set ps \<Longrightarrow> read_text fs0 p = Inl e \<Longrightarrow> \<exists>e'. combined_content fs0 ps = Inl e'"
  by (induction ps) (auto split: sum.splits)




lemma resolve_cwd: "cwd fs1 = cwd fs0 \<Longrightarrow> resolve fs1 p = resolve fs0 p"
  by (simp add: resolve_def)




section \<open>Facts about writes in flat mode\<close>

lemma stem_suffix_name:
  "name p = name q \<Longrightarrow> stem p = stem q \<and> suffix_of p = suffix_of q"
  by (auto simp: stem_def suffix_of_def split: option.splits)

lemma stem_no_sep: "CHR ''/'' \<notin> set (name p) \<Longrightarrow> CHR ''/'' \<notin> set (stem p)"
  using stem_subset by blast

lemma suffix_of_no_sep: "CHR ''/'' \<notin> set (name p) \<Longrightarrow> CHR ''/'' \<notin> set (suffix_of p)"
  using suffix_of_subset by blast

lemma numbered_name_inj:
  assumes "numbered_name nm i = numbered_name nm j"
  shows "i = j"
proof -
  let ?s = "stem (Path False [nm])" and ?e = "suffix_of (Path False [nm])"
  have nm: "?s @ ?e = nm"
    using stem_suffix[of "Path False [nm]"] by (simp add: name_def)
  have ne: "?s @ ''_'' @ str_nat k @ ?e \<noteq> nm" for k
  proof
    assume "?s @ ''_'' @ str_nat k @ ?e = nm"
    then have "length (?s @ ''_'' @ str_nat k @ ?e) = length (?s @ ?e)"
      using nm by simp
    then show False by simp
  qed
  show ?thesis
  proof (cases "i = 0"; cases "j = 0")
    assume "i \<noteq> 0" "j \<noteq> 0"
    with assms show ?thesis
      by (auto simp: numbered_name_def dest: str_nat_inj)
  qed (use assms ne ne[symmetric] in \<open>auto simp: numbered_name_def\<close>)
qed

lemma candidate_numbered:
  assumes "valid_name nm" and "name p = nm" and "0 < i"
  shows "candidate b (stem p) (suffix_of p) i = child b (numbered_name nm i)"
proof -
  have eq: "stem p = stem (Path False [nm])" "suffix_of p = suffix_of (Path False [nm])"
    using stem_suffix_name[of p "Path False [nm]"] assms(2) by (simp_all add: name_def)
  have "CHR ''/'' \<notin> set (name p)"
    using assms(1,2) by (simp add: valid_name_def)
  then have "CHR ''/'' \<notin> set (stem p)" "CHR ''/'' \<notin> set (suffix_of p)"
    by (simp_all add: stem_no_sep suffix_of_no_sep)
  then show ?thesis
    using assms(3) eq by (simp add: candidate_child numbered_name_def)
qed

lemma resolve_child: "resolve fs0 (child b x) = resolve fs0 b @ [x]"
  by (simp add: resolve_def child_def)

lemma exists_child:
  "stat fs0 b = Some (Dir l es) \<Longrightarrow> exists fs0 (child b x) \<longleftrightarrow> x \<in> fst ` set es"
proof -
  assume "stat fs0 b = Some (Dir l es)"
  then have "stat fs0 (child b x) = map_of es x"
    by (simp add: stat_def resolve_child lookup_append split: option.splits)
  then show ?thesis
    by (simp add: exists_def map_of_eq_None_iff)
qed

lemma update_fresh: "x \<notin> fst ` set es \<Longrightarrow> AList.update x v es = es @ [(x, v)]"
  by (induction es) auto

lemma put_in_dir:
  "lookup xs n = Some (Dir l es) \<Longrightarrow>
     \<exists>r. put (xs @ [x]) v n = Some r \<and> lookup xs r = Some (Dir l (AList.update x v es))"
proof (induction xs arbitrary: n)
  case Nil
  then show ?case by simp
next
  case (Cons y ys)
  from Cons.prems obtain l' es' m where n: "n = Dir l' es'" and m: "map_of es' y = Some m"
    and ys: "lookup ys m = Some (Dir l es)"
    by (auto split: node.splits option.splits)
  from Cons.IH[OF ys] obtain r where r: "put (ys @ [x]) v m = Some r"
    "lookup ys r = Some (Dir l (AList.update x v es))"
    by blast
  with n m show ?case
    by (simp add: update_conv')
qed

lemma mkdir_existing:
  "stat fs0 b = Some (Dir l es) \<Longrightarrow> mkdir_parents_exist_ok fs0 b = Inr fs0"
  by (simp add: stat_def mkdir_parents_exist_ok_def mkdirs_existing)

lemma write_text_fresh:
  assumes "stat fs0 b = Some (Dir l es)" and "x \<notin> fst ` set es"
  shows "\<exists>fs1. write_text fs0 (child b x) c = Inr fs1 \<and> cwd fs1 = cwd fs0
     \<and> stat fs1 b = Some (Dir l (es @ [(x, File (Some c))]))"
proof -
  have none: "stat fs0 (child b x) = None"
    using exists_child[OF assms(1), of x] assms(2) by (simp add: exists_def)
  from assms(1) put_in_dir[of "resolve fs0 b" "root_dir fs0" l es x "File (Some c)"]
  obtain r where r: "put (resolve fs0 b @ [x]) (File (Some c)) (root_dir fs0) = Some r"
    "lookup (resolve fs0 b) r = Some (Dir l (AList.update x (File (Some c)) es))"
    by (auto simp: stat_def)
  have "write_text fs0 (child b x) c = Inr (fs0\<lparr>root_dir := r\<rparr>)"
    using none r(1) by (simp add: write_text_def resolve_child)
  moreover have "resolve (fs0\<lparr>root_dir := r\<rparr>) b = resolve fs0 b"
    by (simp add: resolve_def)
  then have "stat (fs0\<lparr>root_dir := r\<rparr>) b = Some (Dir l (es @ [(x, File (Some c))]))"
    using r(2) assms(2) by (simp add: stat_def update_fresh)
  ultimately show ?thesis by simp
qed

lemma parent_child: "parent (child b x) = b"
  by (simp add: parent_def child_def)

lemma unique_name_next:
  assumes dir: "stat fs0 b = Some (Dir l es)"
    and names: "map fst es = map (numbered_name nm) [0..<k]"
    and nm: "valid_name nm"
  shows "generate_unique_filename (exists fs0) b nm = Some (child b (numbered_name nm k))"
proof -
  have ex: "exists fs0 (child b x) \<longleftrightarrow> x \<in> numbered_name nm ` {0..<k}" for x
  proof -
    have "fst ` set es = set (map fst es)" by simp
    also have "\<dots> = numbered_name nm ` {0..<k}" unfolding names by simp
    finally show ?thesis using exists_child[OF dir] by simp
  qed
  have exn: "exists fs0 (child b (numbered_name nm i)) \<longleftrightarrow> i < k" for i
    unfolding ex by (auto dest: numbered_name_inj)
  have p: "div_str b nm = child b nm"
    using nm by (rule div_str_plain)
  have cand: "candidate b (stem (child b nm)) (suffix_of (child b nm)) i = child b (numbered_name nm i)"
    if "0 < i" for i
    using nm _ that by (rule candidate_numbered) (rule name_child)
  show ?thesis
  proof (cases "k = 0")
    case True
    then have "\<not> exists fs0 (child b nm)"
      using exn[of 0] by (simp add: numbered_name_def)
    with True show ?thesis
      by (simp add: generate_unique_filename_def p numbered_name_def)
  next
    case False
    then have here: "exists fs0 (child b nm)"
      using exn[of 0] by (simp add: numbered_name_def)
    have "probe (exists fs0) b (stem (child b nm)) (suffix_of (child b nm)) 1
        = Some (candidate b (stem (child b nm)) (suffix_of (child b nm)) k)"
    proof (rule probe_finds)
      show "\<not> exists fs0 (candidate b (stem (child b nm)) (suffix_of (child b nm)) k)"
        using False by (simp add: cand exn)
      show "1 \<le> k" using False by simp
      show "\<forall>m. 1 \<le> m \<and> m < k \<longrightarrow>
          exists fs0 (candidate b (stem (child b nm)) (suffix_of (child b nm)) m)"
        by (simp add: cand exn)
    qed
    with here False show ?thesis
      by (simp add: generate_unique_filename_def p cand)
  qed
qed

lemma flat_write_step:
  assumes flat: "\<not> mirror_dir_structure cfg"
    and dir: "stat (fs st) (output_dir cfg) = Some (Dir l es)"
    and names: "map fst es = map (numbered_name nm) [0..<k]"
    and nm: "valid_name nm"
    and d: "name (Path_of_str (path d)) = nm"
  shows "\<exists>st'. write_output_file cfg st (Some d) = Some st'
     \<and> processed_files st' = processed_files st @ [child (output_dir cfg) (numbered_name nm k)]
     \<and> stat (fs st') (output_dir cfg)
         = Some (Dir l (es @ [(numbered_name nm k, File (Some (content d)))]))"
proof -
  let ?out = "output_dir cfg" and ?x = "numbered_name nm k"
  have r: "resolve_output_path cfg (fs st) d = Some (child ?out ?x)"
    using flat d nm unique_name_next[OF dir names nm]
    by (simp add: resolve_output_path_def div_str_plain name_child)
  have fresh: "?x \<notin> fst ` set es"
  proof -
    have "fst ` set es = set (map fst es)" by simp
    also have "\<dots> = numbered_name nm ` {0..<k}" unfolding names by simp
    finally show ?thesis by (auto dest: numbered_name_inj)
  qed
  from write_text_fresh[OF dir fresh, of "content d"] obtain fs1 where
    w: "write_text (fs st) (child ?out ?x) (content d) = Inr fs1"
    and s: "stat fs1 ?out = Some (Dir l (es @ [(?x, File (Some (content d)))]))"
    by blast
  have "write_output_file cfg st (Some d)
      = Some (st\<lparr>fs := fs1, processed_files := processed_files st @ [child ?out ?x]\<rparr>)"
    using r w mkdir_existing[OF dir] by (simp add: write_output_file_def parent_child)
  with s show ?thesis by simp
qed

lemma flat_write_all:
  assumes flat: "\<not> mirror_dir_structure cfg" and nm: "valid_name nm"
  shows "stat (fs st) (output_dir cfg) = Some (Dir l es) \<Longrightarrow>
     map fst es = map (numbered_name nm) [0..<k] \<Longrightarrow>
     \<forall>d \<in> set ds. name (Path_of_str (path d)) = nm \<Longrightarrow>
     \<exists>st'. write_results cfg st (map (\<lambda>d. Inr (Some d)) ds) = Some (Inr st')
       \<and> processed_files st' = processed_files st
            @ map (\<lambda>(i, d). child (output_dir cfg) (numbered_name nm i)) (enumerate k ds)
       \<and> stat (fs st') (output_dir cfg)
           = Some (Dir l (es @ map (\<lambda>(i, d). (numbered_name nm i, File (Some (content d))))
                                (enumerate k ds)))"
proof (induction ds arbitrary: st es k)
  case Nil
  then show ?case by simp
next
  case (Cons d ds)
  from flat_write_step[OF flat Cons.prems(1,2) nm, of d] Cons.prems(3)
  obtain st1 where w: "write_output_file cfg st (Some d) = Some st1"
    and p1: "processed_files st1
        = processed_files st @ [child (output_dir cfg) (numbered_name nm k)]"
    and s1: "stat (fs st1) (output_dir cfg)
        = Some (Dir l (es @ [(numbered_name nm k, File (Some (content d)))]))"
    by auto
  have names1: "map fst (es @ [(numbered_name nm k, File (Some (content d)))])
      = map (numbered_name nm) [0..<Suc k]"
    using Cons.prems(2) by simp
  from Cons.IH[OF s1 names1] Cons.prems(3)
  obtain st' where "write_results cfg st1 (map (\<lambda>d. Inr (Some d)) ds) = Some (Inr st')"
    "processed_files st' = processed_files st1
       @ map (\<lambda>(i, d). child (output_dir cfg) (numbered_name nm i)) (enumerate (Suc k) ds)"
    "stat (fs st') (output_dir cfg)
       = Some (Dir l ((es @ [(numbered_name nm k, File (Some (content d)))])
            @ map (\<lambda>(i, d). (numbered_name nm i, File (Some (content d)))) (enumerate (Suc k) ds)))"
    by auto
  with w p1 show ?case by simp
qed

lemma map_enumerate_index:
  "map (\<lambda>(i, d). g i) (enumerate k xs) = map g [k..<k + length xs]"
proof -
  have eq: "(\<lambda>(i, d). g i) = g \<circ> fst"
    by (simp add: fun_eq_iff)
  have "map (\<lambda>(i, d). g i) (enumerate k xs) = map g (map fst (enumerate k xs))"
    unfolding eq by (simp only: map_map)
  then show ?thesis
    by (simp only: map_fst_enumerate)
qed

section \<open>Facts about what an operation leaves alone\<close>

lemma separate_sym: "separate xs ys \<Longrightarrow> separate ys xs"
  by (simp add: separate_def)

lemma separate_append: "separate q xs \<Longrightarrow> separate q (xs @ ys)"
  unfolding separate_def
  by (metis prefix_append prefix_order.trans prefixI prefix_same_cases)

lemma lookup_put_other:
  "put xs v n = Some n' \<Longrightarrow> separate q xs \<Longrightarrow> lookup q n' = lookup q n"
proof (induction xs arbitrary: n n' q)
  case Nil
  then show ?case by (simp add: separate_def)
next
  case (Cons x xs)
  from Cons.prems(1) obtain l es c' where n: "n = Dir l es"
    and c': "(if xs = [] then Some v
              else (case map_of es x of None \<Rightarrow> None | Some c \<Rightarrow> put xs v c)) = Some c'"
    and n': "n' = Dir l (AList.update x c' es)"
    by (auto split: node.splits option.splits)
  from Cons.prems(2) obtain y ys where q: "q = y # ys"
    by (cases q) (auto simp: separate_def)
  show ?case
  proof (cases "y = x")
    case False
    with q n n' show ?thesis by (simp add: update_conv')
  next
    case True
    with Cons.prems(2) q have sep: "separate ys xs" and ne: "xs \<noteq> []"
      by (auto simp: separate_def)
    with c' obtain c where c: "map_of es x = Some c" "put xs v c = Some c'"
      by (auto split: option.splits)
    from Cons.IH[OF c(2) sep] True q n n' c(1) show ?thesis
      by (simp add: update_conv')
  qed
qed

lemma lookup_mkdirs_other:
  "mkdirs xs n = Some n' \<Longrightarrow> \<not> prefix q xs \<Longrightarrow> lookup q n' = lookup q n"
proof (induction xs arbitrary: n n' q)
  case Nil
  then show ?case by (auto split: node.splits)
next
  case (Cons x xs)
  from Cons.prems(1) obtain l es c' where n: "n = Dir l es"
    and c': "mkdirs xs (case map_of es x of None \<Rightarrow> Dir True [] | Some c \<Rightarrow> c) = Some c'"
    and n': "n' = Dir l (AList.update x c' es)"
    by (auto split: node.splits option.splits)
  from Cons.prems(2) obtain y ys where q: "q = y # ys"
    by (cases q) auto
  show ?case
  proof (cases "y = x")
    case False
    with q n n' show ?thesis by (simp add: update_conv')
  next
    case True
    with Cons.prems(2) q have np: "\<not> prefix ys xs" by simp
    from Cons.IH[OF c' np] have eq: "lookup ys c'
        = lookup ys (case map_of es x of None \<Rightarrow> Dir True [] | Some c \<Rightarrow> c)" .
    from np have "ys \<noteq> []" by auto
    then have "lookup ys (Dir True []) = None" by (cases ys) auto
    with eq True q n n' show ?thesis
      by (auto simp: update_conv' split: option.splits)
  qed
qed

lemma lookup_mkdirs_new:
  "mkdirs xs n = Some n' \<Longrightarrow> lookup xs n = None \<Longrightarrow> lookup xs n' = Some (Dir True [])"
proof (induction xs arbitrary: n n')
  case Nil
  then show ?case by simp
next
  case (Cons x xs)
  from Cons.prems(1) obtain l es c' where n: "n = Dir l es"
    and c': "mkdirs xs (case map_of es x of None \<Rightarrow> Dir True [] | Some c \<Rightarrow> c) = Some c'"
    and n': "n' = Dir l (AList.update x c' es)"
    by (auto split: node.splits option.splits)
  show ?case
  proof (cases "map_of es x")
    case None
    have "mkdirs ys (Dir True []) = Some m \<Longrightarrow> lookup ys m = Some (Dir True [])" for ys m
    proof (induction ys arbitrary: m)
      case Nil
      then show ?case by simp
    next
      case (Cons y ys)
      then show ?case by (auto simp: update_conv' split: option.splits)
    qed
    with None c' n' show ?thesis by (simp add: update_conv')
  next
    case (Some c)
    with Cons.prems(2) n have "lookup xs c = None" by simp
    with Cons.IH[of c c'] c' Some n' show ?thesis by (simp add: update_conv')
  qed
qed

lemma lookup_remove_other:
  "remove xs n = Some n' \<Longrightarrow> separate q xs \<Longrightarrow> lookup q n' = lookup q n"
proof (induction xs arbitrary: n n' q)
  case Nil
  then show ?case by simp
next
  case (Cons x xs)
  from Cons.prems(1) obtain l es c where n: "n = Dir l es" and c: "map_of es x = Some c"
    by (auto split: node.splits option.splits)
  from Cons.prems(2) obtain y ys where q: "q = y # ys"
    by (cases q) (auto simp: separate_def)
  show ?case
  proof (cases "y = x")
    case False
    with Cons.prems(1) q n c show ?thesis
      by (auto simp: update_conv' split: option.splits if_splits)
  next
    case True
    with Cons.prems(2) q have sep: "separate ys xs" and ne: "xs \<noteq> []"
      by (auto simp: separate_def)
    with Cons.prems(1) n c obtain c' where c': "remove xs c = Some c'"
      and n': "n' = Dir l (AList.update x c' es)"
      by (auto split: option.splits)
    from Cons.IH[OF c' sep] True q n n' c show ?thesis
      by (simp add: update_conv')
  qed
qed

lemma remove_then_mkdirs:
  "lookup xs n \<noteq> None \<Longrightarrow> xs \<noteq> [] \<Longrightarrow>
     \<exists>n' n''. remove xs n = Some n' \<and> lookup xs n' = None \<and> mkdirs xs n' = Some n''"
proof (induction xs arbitrary: n)
  case Nil
  then show ?case by simp
next
  case (Cons x xs)
  from Cons.prems(1) obtain l es c where n: "n = Dir l es" and c: "map_of es x = Some c"
    and xs: "lookup xs c \<noteq> None"
    by (auto split: node.splits option.splits)
  show ?case
  proof (cases "xs = []")
    case True
    with n c show ?thesis
      by (simp add: delete_conv')
  next
    case False
    from Cons.IH[OF xs False] obtain c' c'' where "remove xs c = Some c'" "lookup xs c' = None"
      "mkdirs xs c' = Some c''"
      by blast
    with False n c show ?thesis
      by (simp add: update_conv')
  qed
qed

lemma mkdirs_under:
  "lookup xs n = Some m \<Longrightarrow>
     mkdirs (xs @ ys) n = (case mkdirs ys m of None \<Rightarrow> None | Some m' \<Rightarrow> put xs m' n)"
proof (induction xs arbitrary: n)
  case Nil
  then show ?case by (simp split: option.splits)
next
  case (Cons x xs)
  from Cons.prems obtain l es c where n: "n = Dir l es" and c: "map_of es x = Some c"
    and xs: "lookup xs c = Some m"
    by (auto split: node.splits option.splits)
  from Cons.IH[OF xs] n c show ?case
    by (cases "xs = []") (auto split: option.splits)
qed

lemma put_under:
  "lookup xs n = Some m \<Longrightarrow> ys \<noteq> [] \<Longrightarrow>
     put (xs @ ys) v n = (case put ys v m of None \<Rightarrow> None | Some m' \<Rightarrow> put xs m' n)"
proof (induction xs arbitrary: n)
  case Nil
  then show ?case by (simp split: option.splits)
next
  case (Cons x xs)
  from Cons.prems(1) obtain l es c where n: "n = Dir l es" and c: "map_of es x = Some c"
    and xs: "lookup xs c = Some m"
    by (auto split: node.splits option.splits)
  from Cons.IH[OF xs Cons.prems(2)] n c Cons.prems(2) show ?case
    by (cases "xs = []") (auto split: option.splits)
qed

lemma put_existing:
  "lookup xs n = Some m \<Longrightarrow> \<exists>n'. put xs m' n = Some n'"
proof (induction xs arbitrary: n)
  case Nil
  then show ?case by simp
next
  case (Cons x xs)
  from Cons.prems obtain l es c where n: "n = Dir l es" and c: "map_of es x = Some c"
    and xs: "lookup xs c = Some m"
    by (auto split: node.splits option.splits)
  from Cons.IH[OF xs] n c show ?case
    by (cases "xs = []") auto
qed

lemma all_listable_update:
  "\<forall>(n, c) \<in> set es. all_listable c \<Longrightarrow> all_listable c' \<Longrightarrow>
     \<forall>(n, c) \<in> set (AList.update x c' es). all_listable c"
  by (induction es) auto

lemma all_listable_map_of:
  "\<forall>(n, c) \<in> set es. all_listable c \<Longrightarrow> map_of es x = Some c \<Longrightarrow> all_listable c"
  by (auto dest: map_of_SomeD)

lemma all_listable_mkdirs:
  "mkdirs ys n = Some n' \<Longrightarrow> all_listable n \<Longrightarrow> all_listable n'"
proof (induction ys arbitrary: n n')
  case Nil
  then show ?case by (auto split: node.splits)
next
  case (Cons y ys)
  from Cons.prems(1) obtain l es c' where n: "n = Dir l es"
    and c': "mkdirs ys (case map_of es y of None \<Rightarrow> Dir True [] | Some c \<Rightarrow> c) = Some c'"
    and n': "n' = Dir l (AList.update y c' es)"
    by (auto split: node.splits option.splits)
  have "all_listable (case map_of es y of None \<Rightarrow> Dir True [] | Some c \<Rightarrow> c)"
    using Cons.prems(2) n by (auto split: option.splits dest: map_of_SomeD)
  from Cons.IH[OF c' this] have "all_listable c'" .
  moreover have "\<forall>(n, c) \<in> set es. all_listable c"
    using Cons.prems(2) n by simp
  ultimately have "\<forall>(n, c) \<in> set (AList.update y c' es). all_listable c"
    by (intro all_listable_update)
  with Cons.prems(2) n n' show ?case
    by simp
qed

lemma all_listable_put:
  "put ys v n = Some n' \<Longrightarrow> all_listable n \<Longrightarrow> all_listable v \<Longrightarrow> all_listable n'"
proof (induction ys arbitrary: n n')
  case Nil
  then show ?case by simp
next
  case (Cons y ys)
  from Cons.prems(1) obtain l es c' where n: "n = Dir l es"
    and c': "(if ys = [] then Some v
              else (case map_of es y of None \<Rightarrow> None | Some c \<Rightarrow> put ys v c)) = Some c'"
    and n': "n' = Dir l (AList.update y c' es)"
    by (auto split: node.splits option.splits)
  have "all_listable c'"
  proof (cases "ys = []")
    case True
    with c' Cons.prems(3) show ?thesis by simp
  next
    case False
    with c' obtain c where c: "map_of es y = Some c" "put ys v c = Some c'"
      by (auto split: option.splits)
    with Cons.prems(2) n have "all_listable c" by (auto dest: map_of_SomeD)
    with Cons.IH[OF c(2)] Cons.prems(3) show ?thesis by simp
  qed
  moreover have "\<forall>(n, c) \<in> set es. all_listable c"
    using Cons.prems(2) n by simp
  ultimately have "\<forall>(n, c) \<in> set (AList.update y c' es). all_listable c"
    by (intro all_listable_update)
  with Cons.prems(2) n n' show ?case
    by simp
qed

lemma files_separate:
  "lookup q n = Some (File c) \<Longrightarrow> lookup q' n = Some (File c') \<Longrightarrow> q \<noteq> q' \<Longrightarrow> separate q q'"
proof -
  have no: "lookup a n = Some (File d) \<Longrightarrow> lookup b n = Some m \<Longrightarrow> prefix a b \<Longrightarrow> a = b" for a b d m
    by (auto simp: prefix_def lookup_append dest: lookup_File)
  assume "lookup q n = Some (File c)" "lookup q' n = Some (File c')" "q \<noteq> q'"
  then show ?thesis
    unfolding separate_def using no by metis
qed

subsection \<open>What the operations of the file system leave alone\<close>

lemma not_prefix_of_separate_append: "separate q (xs @ [x]) \<Longrightarrow> \<not> prefix q xs"
  by (auto simp: separate_def)

lemma mkdir_frame:
  assumes "mkdir_parents_exist_ok f p = Inr f'"
  shows "cwd f' = cwd f"
    and "\<not> prefix q (resolve f p) \<Longrightarrow> lookup q (root_dir f') = lookup q (root_dir f)"
  using assms
  by (auto simp: mkdir_parents_exist_ok_def split: option.splits dest: lookup_mkdirs_other)

lemma write_text_frame:
  assumes "write_text f p c = Inr f'"
  shows "cwd f' = cwd f"
    and "separate q (resolve f p) \<Longrightarrow> lookup q (root_dir f') = lookup q (root_dir f)"
  using assms
  by (auto simp: write_text_def split: option.splits node.splits dest: lookup_put_other)

lemma rmtree_frame:
  assumes "rmtree f p = Inr f'"
  shows "cwd f' = cwd f"
    and "separate q (resolve f p) \<Longrightarrow> lookup q (root_dir f') = lookup q (root_dir f)"
  using assms
  by (auto simp: rmtree_def split: option.splits node.splits if_splits dest: lookup_remove_other)

lemma clear_frame:
  assumes "clear_output_dir cfg f = Inr f'"
  shows "cwd f' = cwd f"
    and "separate q (resolve f (output_dir cfg)) \<Longrightarrow>
           lookup q (root_dir f') = lookup q (root_dir f)"
    and "stat f' (output_dir cfg) = Some (Dir True [])"
proof -
  from assms obtain f1 where
    f1: "(if exists f (output_dir cfg) then rmtree f (output_dir cfg) else Inr f) = Inr f1"
    and mk: "mkdir_parents f1 (output_dir cfg) = Inr f'"
    by (auto simp: clear_output_dir_def split: sum.splits)
  from mk have ne: "\<not> exists f1 (output_dir cfg)"
    and mk': "mkdir_parents_exist_ok f1 (output_dir cfg) = Inr f'"
    by (auto simp: mkdir_parents_def split: if_splits)
  have c1: "cwd f1 = cwd f"
    using f1 rmtree_frame(1) by (auto split: if_splits)
  then have r1: "resolve f1 p = resolve f p" for p
    by (rule resolve_cwd)
  show "cwd f' = cwd f"
    using mkdir_frame(1)[OF mk'] c1 by simp
  then have r': "resolve f' p = resolve f p" for p
    by (rule resolve_cwd)
  show "lookup q (root_dir f') = lookup q (root_dir f)"
    if sep: "separate q (resolve f (output_dir cfg))"
  proof -
    have "lookup q (root_dir f1) = lookup q (root_dir f)"
      using f1 sep rmtree_frame(2) by (auto split: if_splits)
    moreover have "lookup q (root_dir f') = lookup q (root_dir f1)"
      using mk' sep by (intro mkdir_frame(2)) (auto simp: r1 separate_def)
    ultimately show ?thesis by simp
  qed
  from mk' obtain r where r: "mkdirs (resolve f1 (output_dir cfg)) (root_dir f1) = Some r"
    and f': "f' = f1\<lparr>root_dir := r\<rparr>"
    by (auto simp: mkdir_parents_exist_ok_def split: option.splits)
  from ne have "lookup (resolve f1 (output_dir cfg)) (root_dir f1) = None"
    by (simp add: exists_def stat_def)
  moreover have "resolve f' (output_dir cfg) = resolve f1 (output_dir cfg)"
    using f' by (simp add: resolve_def)
  ultimately show "stat f' (output_dir cfg) = Some (Dir True [])"
    using lookup_mkdirs_new[OF r] f' by (simp add: stat_def)
qed

lemma clear_again:
  assumes "stat f (output_dir cfg) = Some m" and "is_dir m" and "all_listable m"
    and "resolve f (output_dir cfg) \<noteq> []"
  shows "\<exists>f'. clear_output_dir cfg f = Inr f'"
proof -
  let ?D = "resolve f (output_dir cfg)"
  from assms(1) have ex: "exists f (output_dir cfg)" and lk: "lookup ?D (root_dir f) \<noteq> None"
    by (simp_all add: exists_def stat_def)
  from remove_then_mkdirs[OF lk assms(4)] obtain n' n'' where
    rm: "remove ?D (root_dir f) = Some n'" and gone: "lookup ?D n' = None"
    and mk: "mkdirs ?D n' = Some n''"
    by blast
  have "rmtree f (output_dir cfg) = Inr (f\<lparr>root_dir := n'\<rparr>)"
    using assms(1-3) rm by (cases m) (simp_all add: rmtree_def)
  moreover have "resolve (f\<lparr>root_dir := n'\<rparr>) (output_dir cfg) = ?D"
    by (simp add: resolve_def)
  then have "mkdir_parents (f\<lparr>root_dir := n'\<rparr>) (output_dir cfg)
      = Inr (f\<lparr>root_dir := n''\<rparr>)"
    using gone mk by (simp add: mkdir_parents_def exists_def stat_def mkdir_parents_exist_ok_def)
  ultimately show ?thesis
    using ex by (simp add: clear_output_dir_def)
qed

lemma setup_logging_frame:
  assumes "setup_logging f = Inr f'"
  shows "cwd f' = cwd f"
    and "separate q (resolve f log_file) \<Longrightarrow> lookup q (root_dir f') = lookup q (root_dir f)"
    and "is_regular_file f' log_file"
proof -
  show "cwd f' = cwd f"
    using assms by (auto simp: setup_logging_def split: option.splits node.splits)
  show "separate q (resolve f log_file) \<Longrightarrow> lookup q (root_dir f') = lookup q (root_dir f)"
    using assms
    by (auto simp: setup_logging_def split: option.splits node.splits dest: lookup_put_other)
  show "is_regular_file f' log_file"
  proof (cases "stat f log_file")
    case None
    with assms obtain r where r: "put (resolve f log_file) (File (Some [])) (root_dir f) = Some r"
      and f': "f' = f\<lparr>root_dir := r\<rparr>"
      by (auto simp: setup_logging_def split: option.splits)
    have "resolve f' log_file = resolve f log_file"
      using f' by (simp add: resolve_def)
    with put_lookup_same[OF r] f' show ?thesis
      by (simp add: is_regular_file_def stat_def)
  next
    case (Some m)
    with assms show ?thesis
      by (cases m) (auto simp: setup_logging_def is_regular_file_def)
  qed
qed

lemma setup_logging_existing: "is_regular_file f log_file \<Longrightarrow> setup_logging f = Inr f"
  by (auto simp: setup_logging_def is_regular_file_def)

lemma append_log_frame:
  shows "cwd (append_log logged f) = cwd f"
    and "separate q (resolve f log_file) \<Longrightarrow>
           lookup q (root_dir (append_log logged f)) = lookup q (root_dir f)"
    and "is_regular_file f log_file \<Longrightarrow> is_regular_file (append_log logged f) log_file"
proof -
  show "cwd (append_log logged f) = cwd f"
    by (auto simp: append_log_def split: option.splits node.splits)
  show "separate q (resolve f log_file) \<Longrightarrow>
           lookup q (root_dir (append_log logged f)) = lookup q (root_dir f)"
    by (auto simp: append_log_def split: option.splits node.splits dest: lookup_put_other)
  show "is_regular_file f log_file \<Longrightarrow> is_regular_file (append_log logged f) log_file"
  proof -
    assume a: "is_regular_file f log_file"
    show ?thesis
    proof (cases "append_log logged f = f")
      case True
      with a show ?thesis by simp
    next
      case False
      then obtain c r where r: "put (resolve f log_file) (File (Some (c @ logged))) (root_dir f) = Some r"
        and f': "append_log logged f = f\<lparr>root_dir := r\<rparr>"
        by (auto simp: append_log_def split: option.splits node.splits)
      have "resolve (f\<lparr>root_dir := r\<rparr>) log_file = resolve f log_file"
        by (simp add: resolve_def)
      with put_lookup_same[OF r] f' show ?thesis
        by (simp add: is_regular_file_def stat_def)
    qed
  qed
qed

lemma resolve_artifact:
  "valid_name x \<Longrightarrow> resolve f (artifact cfg f0 x) = resolve f0 (text_output cfg) @ [x]"
  by (simp add: artifact_def div_str_plain absolute_def resolve_def child_def)

lemma write_artifact_frame:
  assumes "write_artifact cfg f x t = (f', ok)" and "valid_name x"
  shows "cwd f' = cwd f"
    and "separate q (resolve f (text_output cfg) @ [x]) \<Longrightarrow>
           lookup q (root_dir f') = lookup q (root_dir f)"
proof -
  let ?T = "resolve f (text_output cfg)"
  consider "f' = f"
    | f1 where "mkdir_parents_exist_ok f (text_output cfg) = Inr f1" "f' = f1"
    | f1 where "mkdir_parents_exist_ok f (text_output cfg) = Inr f1"
        "write_text f1 (div_str (absolute f1 (text_output cfg)) x) t = Inr f'"
    using assms(1) by (auto simp: write_artifact_def split: sum.splits)
  then have "cwd f' = cwd f \<and> (separate q (?T @ [x]) \<longrightarrow>
      lookup q (root_dir f') = lookup q (root_dir f))"
  proof cases
    case 1
    then show ?thesis by simp
  next
    case 2
    then show ?thesis
      using mkdir_frame[OF 2(1)] not_prefix_of_separate_append by auto
  next
    case 3
    have c1: "cwd f1 = cwd f" using mkdir_frame(1)[OF 3(1)] .
    have p: "resolve f1 (div_str (absolute f1 (text_output cfg)) x) = ?T @ [x]"
      using assms(2) c1 by (simp add: div_str_plain absolute_def resolve_def child_def)
    show ?thesis
      using mkdir_frame[OF 3(1)] write_text_frame[OF 3(2)] not_prefix_of_separate_append c1 p
      by auto
  qed
  then show "cwd f' = cwd f"
    and "separate q (?T @ [x]) \<Longrightarrow> lookup q (root_dir f') = lookup q (root_dir f)"
    by simp_all
qed

lemma write_artifact_existing:
  assumes "is_regular_file f (artifact cfg f x)" and "valid_name x"
  shows "\<exists>f'. write_artifact cfg f x t = (f', True) \<and> read_text f' (artifact cfg f x) = Inr t"
proof -
  let ?T = "resolve f (text_output cfg)"
  from assms obtain c where a: "lookup (?T @ [x]) (root_dir f) = Some (File c)"
    by (auto simp: is_regular_file_def stat_def resolve_artifact)
  then obtain l es where T: "lookup ?T (root_dir f) = Some (Dir l es)"
    by (cases "lookup ?T (root_dir f)") (auto simp: lookup_append split: node.splits)
  then have mk: "mkdir_parents_exist_ok f (text_output cfg) = Inr f"
    by (intro mkdir_existing) (simp add: stat_def)
  have p: "div_str (absolute f (text_output cfg)) x = artifact cfg f x"
    by (simp add: artifact_def)
  from put_in_dir[OF T, of x "File (Some t)"] obtain r where
    r: "put (?T @ [x]) (File (Some t)) (root_dir f) = Some r"
    by blast
  have "write_text f (artifact cfg f x) t = Inr (f\<lparr>root_dir := r\<rparr>)"
    using a r assms(2) by (simp add: write_text_def stat_def resolve_artifact)
  with mk p have "write_artifact cfg f x t = (f\<lparr>root_dir := r\<rparr>, True)"
    by (simp add: write_artifact_def)
  moreover have "read_text (f\<lparr>root_dir := r\<rparr>) (artifact cfg f x) = Inr t"
    using \<open>write_text f (artifact cfg f x) t = Inr (f\<lparr>root_dir := r\<rparr>)\<close>
    by (rule write_text_read_back)
  ultimately show ?thesis by blast
qed

subsection \<open>The collected paths and the records of the Reader\<close>

lemma split_sep_cons_name:
  "CHR ''/'' \<notin> set x \<Longrightarrow> split_sep (x @ ''/'' @ s) = x # split_sep s"
  by (induction x) (auto split: list.splits)

lemma split_sep_join:
  "ns \<noteq> [] \<Longrightarrow> \<forall>n \<in> set ns. CHR ''/'' \<notin> set n \<Longrightarrow> split_sep (join ''/'' ns) = ns"
proof (induction ns rule: induct_list012)
  case 1
  then show ?case by simp
next
  case (2 x)
  then show ?case by (simp add: split_sep_plain)
next
  case (3 x y zs)
  then show ?case using split_sep_cons_name[of x "join ''/'' (y # zs)"] by simp
qed

lemma hd_join: "n \<noteq> [] \<Longrightarrow> hd (join sep (n # ns)) = hd n"
  by (cases ns) simp_all

lemma join_nonempty: "n \<noteq> [] \<Longrightarrow> join sep (n # ns) \<noteq> []"
  by (cases ns) simp_all

lemma Path_of_str_str_path:
  assumes "ns \<noteq> []" and "\<forall>n \<in> set ns. valid_name n"
  shows "Path_of_str (str_path (Path False ns)) = Path False ns"
proof -
  from assms(1) obtain n rest where ns: "ns = n # rest" by (cases ns) auto
  with assms(2) have n0: "n \<noteq> []" "CHR ''/'' \<notin> set n"
    by (auto simp: valid_name_def)
  then have n: "n \<noteq> []" "hd n \<noteq> CHR ''/''"
    by (metis hd_in_set)+
  have s: "str_path (Path False ns) = join ''/'' ns"
    using assms(1) by (simp add: str_path_def)
  have "split_sep (join ''/'' ns) = ns"
    using assms by (intro split_sep_join) (auto simp: valid_name_def)
  moreover have "filter (\<lambda>w. w \<noteq> [] \<and> w \<noteq> ''.'') ns = ns"
    using assms(2) by (auto simp: valid_name_def filter_id_conv)
  moreover have "hd (join ''/'' ns) \<noteq> CHR ''/''"
    using n ns by (simp add: hd_join)
  ultimately show ?thesis
    unfolding Path_of_str_def s by simp
qed

lemma os_walk_valid:
  "(r, ds, fls) \<in> set (os_walk keep root n) \<Longrightarrow> valid_names n \<Longrightarrow>
     \<exists>xs. r = Path (is_absolute root) (names root @ xs) \<and> (\<forall>d \<in> set xs. valid_name d)
       \<and> (\<forall>x \<in> set fls. valid_name x)"
proof (induction keep root n arbitrary: r ds fls rule: os_walk.induct)
  case (1 keep root c)
  then show ?case by simp
next
  case (2 keep root listable es)
  from "2.prems" have listable by (auto split: if_splits)
  with "2.prems" consider "r = root" "fls = map fst (filter (\<lambda>(n, c). \<not> is_dir c) es)"
    | n c where "(n, c) \<in> set es" "is_dir c" "keep n" "(r, ds, fls) \<in> set (os_walk keep (child root n) c)"
    by (auto split: if_splits)
  then show ?case
  proof cases
    case 1
    with "2.prems"(2) show ?thesis by (intro exI[of _ "[]"]) auto
  next
    case 2
    from 2(1) "2.prems"(2) have v: "valid_name n" "valid_names c" by auto
    with "2.IH"[of "(n, c)" n c r ds fls] \<open>listable\<close> 2
    obtain xs where "r = Path (is_absolute (child root n)) (names (child root n) @ xs)"
      "\<forall>d \<in> set xs. valid_name d" "\<forall>x \<in> set fls. valid_name x"
      by auto
    with v(1) show ?thesis
      by (intro exI[of _ "n # xs"]) (simp add: child_def)
  qed
qed

lemma collected_form:
  assumes "p \<in> set (files_to_process cfg src)" and "valid_names src"
  shows "\<exists>ns. ns \<noteq> [] \<and> (\<forall>n \<in> set ns. valid_name n)
     \<and> p = Path (is_absolute (source_dir cfg)) (names (source_dir cfg) @ ns)"
proof -
  from assms(1) obtain r ds fls x where
    w: "(r, ds, fls) \<in> set (os_walk (\<lambda>d. d \<notin> ignored_dirs cfg) (source_dir cfg) src)"
    and x: "x \<in> set fls" and p: "p = child r x"
    by (auto simp: files_to_process_def)
  from os_walk_valid[OF w assms(2)] obtain xs where
    "r = Path (is_absolute (source_dir cfg)) (names (source_dir cfg) @ xs)"
    "\<forall>d \<in> set xs. valid_name d" "\<forall>x \<in> set fls. valid_name x"
    by blast
  with x p show ?thesis
    by (intro exI[of _ "xs @ [x]"]) (auto simp: child_def)
qed

lemma resolve_under:
  "resolve f (Path (is_absolute b) (names b @ ms)) = resolve f b @ ms"
  by (simp add: resolve_def)

lemma stat_under:
  assumes "cwd g = cwd f"
    and "lookup (resolve f b) (root_dir g) = lookup (resolve f b) (root_dir f)"
  shows "stat g (Path (is_absolute b) (names b @ ms)) = stat f (Path (is_absolute b) (names b @ ms))"
proof -
  have "resolve g p = resolve f p" for p
    using assms(1) by (rule resolve_cwd)
  then show ?thesis
    using assms(2) by (simp add: stat_def resolve_under lookup_append)
qed

lemma process_file_plain:
  assumes "process_file cfg f p = Inr (Some d)"
    and "p = Path (is_absolute (source_dir cfg)) (names (source_dir cfg) @ ns)"
    and "ns \<noteq> []" and "\<forall>n \<in> set ns. valid_name n"
  shows "plain_record d"
proof -
  have "relative_to p (source_dir cfg) = Inr (Path False ns)"
    using assms(2) by (simp add: relative_to_def)
  with assms(1) have "path d = str_path (Path False ns)"
    by (auto simp: process_file_def process_file_try_def split: sum.splits)
  with Path_of_str_str_path[OF assms(3,4)] assms(3,4) show ?thesis
    unfolding plain_record_def by auto
qed

lemma process_file_cong:
  assumes "cwd g = cwd f" and "stat g (source_dir cfg) = stat f (source_dir cfg)"
    and "p = Path (is_absolute (source_dir cfg)) (names (source_dir cfg) @ ns)"
  shows "process_file cfg g p = process_file cfg f p"
proof -
  have "resolve g (source_dir cfg) = resolve f (source_dir cfg)"
    using assms(1) by (rule resolve_cwd)
  with assms(2) have "lookup (resolve f (source_dir cfg)) (root_dir g)
      = lookup (resolve f (source_dir cfg)) (root_dir f)"
    by (simp add: stat_def)
  from stat_under[OF assms(1) this] assms(3) have "stat g p = stat f p"
    by simp
  then show ?thesis
    by (simp add: process_file_def process_file_try_def read_text_def)
qed

lemma reader_results_cong:
  assumes "cwd g = cwd f" and "stat g (source_dir cfg) = stat f (source_dir cfg)"
    and "\<forall>src. stat f (source_dir cfg) = Some src \<longrightarrow> valid_names src"
  shows "map (process_file cfg g)
           (case stat g (source_dir cfg) of None \<Rightarrow> [] | Some src \<Rightarrow> files_to_process cfg src)
       = map (process_file cfg f)
           (case stat f (source_dir cfg) of None \<Rightarrow> [] | Some src \<Rightarrow> files_to_process cfg src)"
proof (cases "stat f (source_dir cfg)")
  case None
  with assms(2) show ?thesis by simp
next
  case (Some src)
  with assms(3) have v: "valid_names src" by simp
  have "process_file cfg g p = process_file cfg f p" if "p \<in> set (files_to_process cfg src)" for p
    using collected_form[OF that v] process_file_cong[OF assms(1,2)] by blast
  with Some assms(2) show ?thesis by simp
qed

lemma reader_results_plain:
  assumes "\<forall>src. stat f (source_dir cfg) = Some src \<longrightarrow> valid_names src"
    and "r \<in> set (map (process_file cfg f)
           (case stat f (source_dir cfg) of None \<Rightarrow> [] | Some src \<Rightarrow> files_to_process cfg src))"
    and "r = Inr (Some d)"
  shows "plain_record d"
proof (cases "stat f (source_dir cfg)")
  case None
  with assms(2) show ?thesis by simp
next
  case (Some src)
  with assms(1) have v: "valid_names src" by simp
  from assms(2,3) Some obtain p where p: "p \<in> set (files_to_process cfg src)"
    and r: "process_file cfg f p = Inr (Some d)"
    by auto
  from collected_form[OF p v] process_file_plain[OF r] show ?thesis by blast
qed

section \<open>Claims about the selector\<close>

text \<open>
  C1, as stated, fails: the test is on the string form of the whole path, so an entry of the
  extension set that contains a separator matches across the directory boundary. With the
  extension set \<open>{rc/a.py}\<close> the file \<open>src/a.py\<close> is selected although its name \<open>a.py\<close> does
  not end with any configured extension.
\<close>

theorem C1_name_suffix_counterexample:
  "should_process_file cfg_nested_ext (Path False [''src'', ''a.py''])
   \<and> \<not> (\<exists>e \<in> extensions cfg_nested_ext. endswith (name (Path False [''src'', ''a.py''])) e)"
  by (simp add: should_process_file_def cfg_nested_ext_def str_path_def name_def endswith_def)

text \<open>
  C1, amended: a path is selected iff its string form ends with some configured extension and
  its file name is not ignored; with an empty extension set nothing is selected; and for a
  path with at least one component and extensions free of the separator, the test on the
  string form is the test on the file name, whatever the nesting depth.
\<close>

theorem C1_should_process_file:
  "(should_process_file cfg p \<longleftrightarrow>
      (\<exists>e \<in> extensions cfg. suffix e (str_path p)) \<and> name p \<notin> ignored_files cfg)
   \<and> (extensions cfg = {} \<longrightarrow> \<not> should_process_file cfg p)
   \<and> (names p \<noteq> [] \<and> (\<forall>e \<in> extensions cfg. CHR ''/'' \<notin> set e) \<longrightarrow>
        (should_process_file cfg p \<longleftrightarrow>
          (\<exists>e \<in> extensions cfg. suffix e (name p)) \<and> name p \<notin> ignored_files cfg))"
proof (intro conjI impI)
  show "should_process_file cfg p \<longleftrightarrow>
      (\<exists>e \<in> extensions cfg. suffix e (str_path p)) \<and> name p \<notin> ignored_files cfg"
    by (simp add: should_process_file_def endswith_suffix)
next
  assume "extensions cfg = {}"
  then show "\<not> should_process_file cfg p"
    by (simp add: should_process_file_def)
next
  assume "names p \<noteq> [] \<and> (\<forall>e \<in> extensions cfg. CHR ''/'' \<notin> set e)"
  then have "\<And>e. e \<in> extensions cfg \<Longrightarrow> endswith (str_path p) e = suffix e (name p)"
    using endswith_str_path_name by (simp add: endswith_suffix)
  then show "should_process_file cfg p \<longleftrightarrow>
      (\<exists>e \<in> extensions cfg. suffix e (name p)) \<and> name p \<notin> ignored_files cfg"
    by (auto simp: should_process_file_def)
qed

theorem C1_should_process_file_witness:
  "should_process_file cfg_py (Path False [''pkg'', ''sub'', ''c.py''])
   \<and> \<not> should_process_file cfg_py (Path False [''pkg'', ''setup.py''])
   \<and> \<not> should_process_file cfg_py (Path False [''pkg'', ''b.txt''])
   \<and> \<not> should_process_file (cfg_py\<lparr>extensions := {}\<rparr>) (Path False [''pkg'', ''sub'', ''c.py''])"
  using C1_should_process_file[of cfg_py "Path False [''pkg'', ''sub'', ''c.py'']"]
    C1_should_process_file[of cfg_py "Path False [''pkg'', ''setup.py'']"]
    C1_should_process_file[of cfg_py "Path False [''pkg'', ''b.txt'']"]
    C1_should_process_file[of "cfg_py\<lparr>extensions := {}\<rparr>" "Path False [''pkg'', ''sub'', ''c.py'']"]
  by (simp add: cfg_py_def name_def str_path_def suffix_to_prefix)


section \<open>Claims about the traversal\<close>



section \<open>Claims about the unique-name generator\<close>

text \<open>
  C10: when only finitely many of the numbered candidates \<open>dir/{stem}_{n}{ext}\<close> exist, the
  probe loop of \<open>generate_unique_filename\<close> returns, and the path it returns does not exist
  in the directory at call time.
\<close>

theorem C10_probe_terminates:
  assumes "finite {n. ex (candidate base_path (stem (div_str base_path filename))
                                   (suffix_of (div_str base_path filename)) n)}"
  shows "\<exists>p. generate_unique_filename ex base_path filename = Some p \<and> \<not> ex p"
proof (cases "ex (div_str base_path filename)")
  case False
  then show ?thesis
    by (simp add: generate_unique_filename_def)
next
  case True
  from probe_terminates[OF assms, of 1] obtain n where
    "probe ex base_path (stem (div_str base_path filename))
       (suffix_of (div_str base_path filename)) 1
     = Some (candidate base_path (stem (div_str base_path filename))
               (suffix_of (div_str base_path filename)) n)"
    "\<not> ex (candidate base_path (stem (div_str base_path filename))
               (suffix_of (div_str base_path filename)) n)"
    by blast
  with True show ?thesis
    by (simp add: generate_unique_filename_def Let_def)
qed

theorem C10_probe_terminates_witness:
  "finite {n. taken_x (candidate out_dir (stem (div_str out_dir ''x.py''))
                                  (suffix_of (div_str out_dir ''x.py'')) n)}
   \<and> (\<exists>p. generate_unique_filename taken_x out_dir ''x.py'' = Some p \<and> \<not> taken_x p)"
proof -
  have parts: "stem (div_str out_dir ''x.py'') = ''x''" "suffix_of (div_str out_dir ''x.py'') = ''.py''"
    by code_simp+
  have fin: "finite {n. taken_x (candidate out_dir (stem (div_str out_dir ''x.py''))
                                  (suffix_of (div_str out_dir ''x.py'')) n)}"
    unfolding parts taken_x_def by (rule finite_existing_candidates) simp_all
  from C10_probe_terminates[OF fin] fin show ?thesis
    by blast
qed

section \<open>Claims about the tree renderer\<close>

text \<open>
  C8, at the input where it fails: the directory holds \<open>src\<close> and \<open>venv\<close>, and \<open>venv\<close> is
  ignored. The position that decides the connector is counted in the sorted list of all
  children, ignored ones included, so \<open>src\<close>, the last child that is emitted, is not the last
  of that list and is drawn with the connector of an inner branch; the rendering has no last
  branch at all.
\<close>

theorem C8_last_emitted_connector_failing_input:
  "sort_entries [(''src'', Dir True []), (''venv'', Dir True [])]
     = [(''src'', Dir True []), (''venv'', Dir True [])]
   \<and> generate_tree cfg_py (Path False []) (Some tree_src_venv) [] = Inr [tee @ ''src'']
   \<and> tee @ ''src'' \<noteq> ell @ ''src''"
  by code_simp

text \<open>
  C9: the rendering of a path is empty when the name of the path is ignored, when the path
  cannot be expressed relative to the text-output root, and when the directory cannot be
  listed; and every line of a rendering is the prefix, extensions for the levels below, a
  connector, and a name that is not in the ignored-directories set.
\<close>

theorem C9_tree_scope_and_ignored:
  "(name p \<in> ignored_dirs cfg \<longrightarrow> generate_tree cfg p nd pfx = Inr [])
   \<and> (relative_to p (text_output cfg) = Inl ValueError \<longrightarrow> generate_tree cfg p nd pfx = Inr [])
   \<and> (nd = Some (Dir False es) \<longrightarrow> generate_tree cfg p nd pfx = Inr [])
   \<and> (generate_tree cfg p nd pfx = Inr lines \<longrightarrow> (\<forall>line \<in> set lines. entry_line cfg pfx line))"
proof (intro conjI impI)
  assume "name p \<in> ignored_dirs cfg"
  then show "generate_tree cfg p nd pfx = Inr []"
    by simp
next
  assume "relative_to p (text_output cfg) = Inl ValueError"
  then show "generate_tree cfg p nd pfx = Inr []"
    by simp
next
  assume "nd = Some (Dir False es)"
  then show "generate_tree cfg p nd pfx = Inr []"
    by (simp add: iterdir_def split: sum.splits)
next
  assume "generate_tree cfg p nd pfx = Inr lines"
  then show "\<forall>line \<in> set lines. entry_line cfg pfx line"
    using tree_lines_not_ignored(1) by blast
qed

theorem C9_tree_scope_and_ignored_witness:
  "generate_tree cfg_py (Path False [''pkg'', ''venv'']) (Some tree_mixed) [] = Inr []
   \<and> generate_tree (cfg_py\<lparr>text_output := Path False [''docs'']\<rparr>) (Path False [''pkg''])
        (Some tree_mixed) [] = Inr []
   \<and> generate_tree cfg_py (Path False [''pkg'']) (Some (Dir False [(''a.py'', File None)])) [] = Inr []
   \<and> generate_tree cfg_py (Path False [''pkg'']) (Some tree_mixed) []
        = Inr [tee @ ''alpha'', bar @ tee @ ''sub'', bar @ ell @ ''in.py'', tee @ ''Zeta'',
               bar @ ell @ ''z.py'', tee @ ''a.py'', ell @ ''b.txt'']
   \<and> entry_line cfg_py [] (bar @ ell @ ''z.py'')"
proof -
  have ignored: "name (Path False [''pkg'', ''venv'']) \<in> ignored_dirs cfg_py"
    by (simp add: name_def cfg_py_def)
  have outside: "relative_to (Path False [''pkg''])
      (text_output (cfg_py\<lparr>text_output := Path False [''docs'']\<rparr>)) = Inl ValueError"
    by (simp add: relative_to_def)
  have lines: "generate_tree cfg_py (Path False [''pkg'']) (Some tree_mixed) []
        = Inr [tee @ ''alpha'', bar @ tee @ ''sub'', bar @ ell @ ''in.py'', tee @ ''Zeta'',
               bar @ ell @ ''z.py'', tee @ ''a.py'', ell @ ''b.txt'']"
    by code_simp
  from C9_tree_scope_and_ignored[of "Path False [''pkg'', ''venv'']" cfg_py "Some tree_mixed" "[]"]
    ignored
  have 1: "generate_tree cfg_py (Path False [''pkg'', ''venv'']) (Some tree_mixed) [] = Inr []"
    by blast
  from C9_tree_scope_and_ignored[of "Path False [''pkg'']"
      "cfg_py\<lparr>text_output := Path False [''docs'']\<rparr>" "Some tree_mixed" "[]"] outside
  have 2: "generate_tree (cfg_py\<lparr>text_output := Path False [''docs'']\<rparr>) (Path False [''pkg''])
        (Some tree_mixed) [] = Inr []"
    by blast
  from C9_tree_scope_and_ignored[where p = "Path False [''pkg'']" and cfg = cfg_py
      and nd = "Some (Dir False [(''a.py'', File None)])" and es = "[(''a.py'', File None)]"
      and pfx = "[]"]
  have 3: "generate_tree cfg_py (Path False [''pkg'']) (Some (Dir False [(''a.py'', File None)])) []
      = Inr []"
    by blast
  from C9_tree_scope_and_ignored[where p = "Path False [''pkg'']" and cfg = cfg_py
      and nd = "Some tree_mixed" and pfx = "[]" and lines =
      "[tee @ ''alpha'', bar @ tee @ ''sub'', bar @ ell @ ''in.py'', tee @ ''Zeta'',
               bar @ ell @ ''z.py'', tee @ ''a.py'', ell @ ''b.txt'']"] lines
  have 4: "entry_line cfg_py [] (bar @ ell @ ''z.py'')"
    by simp
  from 1 2 3 4 lines show ?thesis
    by blast
qed

section \<open>Claims about the reader\<close>

text \<open>
  C5, as stated, fails: the computation of the relative path is inside the \<open>try\<close> block, so
  the \<open>ValueError\<close> of a path outside the source root is caught like any other error. With
  source root \<open>src\<close>, reading the readable file \<open>other/a.py\<close> returns \<open>None\<close>; nothing is
  raised.
\<close>

theorem C5_outside_root_counterexample:
  "relative_to (Path False [''other'', ''a.py'']) (source_dir cfg_src) = Inl ValueError
   \<and> read_text fs_two_roots (Path False [''other'', ''a.py'']) = Inr ''B''
   \<and> process_file cfg_src fs_two_roots (Path False [''other'', ''a.py'']) = Inr None
   \<and> \<not> (\<exists>e. process_file cfg_src fs_two_roots (Path False [''other'', ''a.py'']) = Inl e)"
  by (simp add: process_file_def process_file_try_def relative_to_def read_text_def stat_def
      resolve_def cfg_src_def fs_two_roots_def)

text \<open>
  C5, amended: the reader never raises. It returns no record exactly when the file cannot be
  read or its path cannot be expressed relative to the source root, and then the loop over
  the results goes on with the next one; otherwise it returns the record of the relative
  path and the content.
\<close>

theorem C5_reader_soft_failures:
  "(\<exists>r. process_file cfg fs0 p = Inr r)
   \<and> (process_file cfg fs0 p = Inr None \<longleftrightarrow>
        (\<exists>e. read_text fs0 p = Inl e) \<or> relative_to p (source_dir cfg) = Inl ValueError)
   \<and> (process_file cfg fs0 p = Inr None \<longrightarrow>
        write_results cfg st (process_file cfg fs0 p # rs) = write_results cfg st rs)
   \<and> (\<forall>c rel. read_text fs0 p = Inr c \<and> relative_to p (source_dir cfg) = Inr rel \<longrightarrow>
        process_file cfg fs0 p = Inr (Some \<lparr>path = str_path rel, content = c\<rparr>))"
proof (intro conjI)
  show "\<exists>r. process_file cfg fs0 p = Inr r"
    by (simp add: process_file_def split: sum.splits)
  show "process_file cfg fs0 p = Inr None \<longleftrightarrow>
        (\<exists>e. read_text fs0 p = Inl e) \<or> relative_to p (source_dir cfg) = Inl ValueError"
    by (auto simp: process_file_def process_file_try_def relative_to_def split: sum.splits)
  show "process_file cfg fs0 p = Inr None \<longrightarrow>
        write_results cfg st (process_file cfg fs0 p # rs) = write_results cfg st rs"
    by (simp add: write_output_file_def)
  show "\<forall>c rel. read_text fs0 p = Inr c \<and> relative_to p (source_dir cfg) = Inr rel \<longrightarrow>
        process_file cfg fs0 p = Inr (Some \<lparr>path = str_path rel, content = c\<rparr>)"
    by (simp add: process_file_def process_file_try_def)
qed

theorem C5_reader_soft_failures_witness:
  "process_file cfg_src fs_two_roots (Path False [''src'', ''bad.py'']) = Inr None
   \<and> process_file cfg_src fs_two_roots (Path False [''other'', ''a.py'']) = Inr None
   \<and> write_results cfg_src \<lparr>fs = fs_two_roots, processed_files = []\<rparr>
        [process_file cfg_src fs_two_roots (Path False [''src'', ''bad.py''])]
        = Some (Inr \<lparr>fs = fs_two_roots, processed_files = []\<rparr>)
   \<and> process_file cfg_src fs_two_roots (Path False [''src'', ''a.py''])
        = Inr (Some \<lparr>path = ''a.py'', content = ''A''\<rparr>)"
proof -
  have bad: "read_text fs_two_roots (Path False [''src'', ''bad.py'']) = Inl ReadError"
    by (simp add: read_text_def stat_def resolve_def fs_two_roots_def)
  have outside: "relative_to (Path False [''other'', ''a.py'']) (source_dir cfg_src) = Inl ValueError"
    by (simp add: relative_to_def cfg_src_def)
  have good: "read_text fs_two_roots (Path False [''src'', ''a.py'']) = Inr ''A''"
    "relative_to (Path False [''src'', ''a.py'']) (source_dir cfg_src) = Inr (Path False [''a.py''])"
    by (simp_all add: read_text_def stat_def resolve_def fs_two_roots_def relative_to_def cfg_src_def)
  have 1: "process_file cfg_src fs_two_roots (Path False [''src'', ''bad.py'']) = Inr None"
    using C5_reader_soft_failures[of cfg_src fs_two_roots "Path False [''src'', ''bad.py'']"] bad
    by blast
  have 2: "process_file cfg_src fs_two_roots (Path False [''other'', ''a.py'']) = Inr None"
    using C5_reader_soft_failures[of cfg_src fs_two_roots "Path False [''other'', ''a.py'']"] outside
    by blast
  have 3: "write_results cfg_src \<lparr>fs = fs_two_roots, processed_files = []\<rparr>
        [process_file cfg_src fs_two_roots (Path False [''src'', ''bad.py''])]
        = Some (Inr \<lparr>fs = fs_two_roots, processed_files = []\<rparr>)"
    using C5_reader_soft_failures[of cfg_src fs_two_roots "Path False [''src'', ''bad.py'']"
        "\<lparr>fs = fs_two_roots, processed_files = []\<rparr>" "[]"] 1
    by simp
  have 4: "process_file cfg_src fs_two_roots (Path False [''src'', ''a.py''])
        = Inr (Some \<lparr>path = ''a.py'', content = ''A''\<rparr>)"
    using C5_reader_soft_failures[of cfg_src fs_two_roots "Path False [''src'', ''a.py'']"] good
    by (simp add: str_path_def)
  from 1 2 3 4 show ?thesis by blast
qed

section \<open>Claims about the writer\<close>

text \<open>
  C6: given no record, the writer returns with the state unchanged. Given a record, it always
  returns: when creating the parent directories and writing the file both succeed, the state
  is the written file system with exactly the resolved output path appended to the list of
  processed files, and the file at that path holds the content of the record; when either
  fails, the list is unchanged and nothing is raised. Hence, if every listed path was a
  regular file before the call, every listed path is one after it.
\<close>

theorem C6_writer:
  "write_output_file cfg st None = Some st
   \<and> (\<exists>p st'. resolve_output_path cfg (fs st) d = Some p
        \<and> write_output_file cfg st (Some d) = Some st'
        \<and> (\<forall>fs1 fs2. mkdir_parents_exist_ok (fs st) (parent p) = Inr fs1
              \<and> write_text fs1 p (content d) = Inr fs2 \<longrightarrow>
              st' = \<lparr>fs = fs2, processed_files = processed_files st @ [p]\<rparr>
              \<and> read_text fs2 p = Inr (content d))
        \<and> ((\<exists>e. mkdir_parents_exist_ok (fs st) (parent p) = Inl e)
             \<or> (\<exists>fs1 e. mkdir_parents_exist_ok (fs st) (parent p) = Inr fs1
                   \<and> write_text fs1 p (content d) = Inl e) \<longrightarrow>
              processed_files st' = processed_files st)
        \<and> ((\<forall>q \<in> set (processed_files st). is_regular_file (fs st) q) \<longrightarrow>
              (\<forall>q \<in> set (processed_files st'). is_regular_file (fs st') q)))"
proof
  show "write_output_file cfg st None = Some st"
    by (simp add: write_output_file_def)
next
  obtain p where p: "resolve_output_path cfg (fs st) d = Some p"
    using resolve_output_path_returns by blast
  define st' where "st' =
    (case mkdir_parents_exist_ok (fs st) (parent p) of
       Inl e \<Rightarrow> st
     | Inr fs1 \<Rightarrow>
         (case write_text fs1 p (content d) of
            Inl e \<Rightarrow> st\<lparr>fs := fs1\<rparr>
          | Inr fs2 \<Rightarrow> st\<lparr>fs := fs2, processed_files := processed_files st @ [p]\<rparr>))"
  have w: "write_output_file cfg st (Some d) = Some st'"
    using p by (simp add: write_output_file_def st'_def)
  have ok: "\<forall>fs1 fs2. mkdir_parents_exist_ok (fs st) (parent p) = Inr fs1
              \<and> write_text fs1 p (content d) = Inr fs2 \<longrightarrow>
              st' = \<lparr>fs = fs2, processed_files = processed_files st @ [p]\<rparr>
              \<and> read_text fs2 p = Inr (content d)"
    by (auto simp: st'_def write_text_read_back)
  have failed: "(\<exists>e. mkdir_parents_exist_ok (fs st) (parent p) = Inl e)
             \<or> (\<exists>fs1 e. mkdir_parents_exist_ok (fs st) (parent p) = Inr fs1
                   \<and> write_text fs1 p (content d) = Inl e) \<longrightarrow>
              processed_files st' = processed_files st"
    by (auto simp: st'_def)
  have inv: "(\<forall>q \<in> set (processed_files st). is_regular_file (fs st) q) \<longrightarrow>
              (\<forall>q \<in> set (processed_files st'). is_regular_file (fs st') q)"
  proof (intro impI ballI)
    fix q
    assume a: "\<forall>q \<in> set (processed_files st). is_regular_file (fs st) q"
      and q: "q \<in> set (processed_files st')"
    show "is_regular_file (fs st') q"
    proof (cases "mkdir_parents_exist_ok (fs st) (parent p)")
      case (Inl e)
      with a q show ?thesis by (simp add: st'_def)
    next
      case (Inr fs1)
      note mk = this
      show ?thesis
      proof (cases "write_text fs1 p (content d)")
        case (Inl e)
        with mk a q show ?thesis
          by (auto simp: st'_def intro: mkdir_keeps_regular)
      next
        case (Inr fs2)
        with mk q consider "q \<in> set (processed_files st)" | "q = p"
          by (auto simp: st'_def)
        then show ?thesis
        proof cases
          case 1
          with a have "is_regular_file (fs st) q" by blast
          then have "is_regular_file fs1 q" using mk by (rule mkdir_keeps_regular[rotated])
          then have "is_regular_file fs2 q" using Inr by (rule write_text_keeps_regular[rotated])
          with mk Inr show ?thesis by (simp add: st'_def)
        next
          case 2
          have "is_regular_file fs2 p"
            using write_text_read_back[OF Inr] by (rule read_text_regular)
          with 2 mk Inr show ?thesis by (simp add: st'_def)
        qed
      qed
    qed
  qed
  from p w ok failed inv
  show "\<exists>p st'. resolve_output_path cfg (fs st) d = Some p
        \<and> write_output_file cfg st (Some d) = Some st'
        \<and> (\<forall>fs1 fs2. mkdir_parents_exist_ok (fs st) (parent p) = Inr fs1
              \<and> write_text fs1 p (content d) = Inr fs2 \<longrightarrow>
              st' = \<lparr>fs = fs2, processed_files = processed_files st @ [p]\<rparr>
              \<and> read_text fs2 p = Inr (content d))
        \<and> ((\<exists>e. mkdir_parents_exist_ok (fs st) (parent p) = Inl e)
             \<or> (\<exists>fs1 e. mkdir_parents_exist_ok (fs st) (parent p) = Inr fs1
                   \<and> write_text fs1 p (content d) = Inl e) \<longrightarrow>
              processed_files st' = processed_files st)
        \<and> ((\<forall>q \<in> set (processed_files st). is_regular_file (fs st) q) \<longrightarrow>
              (\<forall>q \<in> set (processed_files st'). is_regular_file (fs st') q))"
    by blast
qed

theorem C6_writer_witness:
  "write_output_file cfg_mirror st_out None = Some st_out
   \<and> write_output_file cfg_mirror st_out (Some rec_c)
       = Some \<lparr>fs = \<lparr>root_dir = Dir True
                 [(''output'', Dir True [(''sub'', Dir True [(''c.py'', File (Some ''C''))])])],
               cwd = []\<rparr>,
             processed_files = [Path False [''output'', ''sub'', ''c.py'']]\<rparr>
   \<and> (\<exists>st'. write_output_file cfg_mirror st_blocked (Some rec_c) = Some st'
          \<and> processed_files st' = [])"
proof -
  let ?p = "Path False [''output'', ''sub'', ''c.py'']"
  let ?fs1 = "\<lparr>root_dir = Dir True [(''output'', Dir True [(''sub'', Dir True [])])], cwd = []\<rparr>"
  let ?fs2 = "\<lparr>root_dir = Dir True
                 [(''output'', Dir True [(''sub'', Dir True [(''c.py'', File (Some ''C''))])])],
               cwd = []\<rparr>"
  have r: "resolve_output_path cfg_mirror (fs st_out) rec_c = Some ?p"
    "resolve_output_path cfg_mirror (fs st_blocked) rec_c = Some ?p"
    by code_simp+
  have m: "mkdir_parents_exist_ok (fs st_out) (parent ?p) = Inr ?fs1"
    by code_simp
  have w: "write_text ?fs1 ?p (content rec_c) = Inr ?fs2"
    by code_simp
  have b: "mkdir_parents_exist_ok (fs st_blocked) (parent ?p) = Inl FileExistsError"
    by code_simp
  have e: "processed_files st_out = []" "processed_files st_blocked = []"
    by code_simp+
  from C6_writer[of cfg_mirror st_out rec_c] r(1) m w e(1)
  have 1: "write_output_file cfg_mirror st_out None = Some st_out"
    and 2: "write_output_file cfg_mirror st_out (Some rec_c)
       = Some \<lparr>fs = ?fs2, processed_files = [?p]\<rparr>"
    by auto
  from C6_writer[of cfg_mirror st_blocked rec_c] r(2) b e(2)
  have 3: "\<exists>st'. write_output_file cfg_mirror st_blocked (Some rec_c) = Some st'
          \<and> processed_files st' = []"
    by auto
  from 1 2 3 show ?thesis by blast
qed

section \<open>Claims about the combined text\<close>




section \<open>Claims about unique names in flat mode\<close>

text \<open>
  C3: \<open>generate_unique_filename\<close> returns \<open>dir/filename\<close> when that path does not exist, and
  otherwise the candidate \<open>dir/{stem}_{n}{ext}\<close> for the smallest \<open>n \<ge> 1\<close> whose path does not
  exist. Consequently, in flat mode and starting from an empty output directory, writing the
  records of \<open>N\<close> files that share the base name \<open>nm\<close> returns, appends the paths of \<open>nm\<close>,
  \<open>{stem}_1{ext}\<close>, ..., \<open>{stem}_{N-1}{ext}\<close> to the list of processed files in the order of
  the writes, and leaves the output directory holding exactly these \<open>N\<close> distinct files, the
  \<open>i\<close>-th with the content of the \<open>i\<close>-th record.
\<close>

theorem C3_unique_names:
  "(\<not> ex (div_str base_path filename) \<longrightarrow>
      generate_unique_filename ex base_path filename = Some (div_str base_path filename))
   \<and> (ex (div_str base_path filename) \<and> 1 \<le> n
        \<and> \<not> ex (candidate base_path (stem (div_str base_path filename))
                    (suffix_of (div_str base_path filename)) n)
        \<and> (\<forall>m. 1 \<le> m \<and> m < n \<longrightarrow>
              ex (candidate base_path (stem (div_str base_path filename))
                    (suffix_of (div_str base_path filename)) m)) \<longrightarrow>
      generate_unique_filename ex base_path filename
        = Some (candidate base_path (stem (div_str base_path filename))
                  (suffix_of (div_str base_path filename)) n))
   \<and> (\<not> mirror_dir_structure cfg \<and> valid_name nm
        \<and> stat (fs st) (output_dir cfg) = Some (Dir l [])
        \<and> (\<forall>d \<in> set ds. name (Path_of_str (path d)) = nm) \<longrightarrow>
      (\<exists>st'. write_results cfg st (map (\<lambda>d. Inr (Some d)) ds) = Some (Inr st')
         \<and> processed_files st' = processed_files st
              @ map (\<lambda>i. child (output_dir cfg) (numbered_name nm i)) [0..<length ds]
         \<and> stat (fs st') (output_dir cfg)
             = Some (Dir l (map (\<lambda>(i, d). (numbered_name nm i, File (Some (content d))))
                               (enumerate 0 ds)))
         \<and> distinct (map (numbered_name nm) [0..<length ds])))"
proof (intro conjI impI)
  assume "\<not> ex (div_str base_path filename)"
  then show "generate_unique_filename ex base_path filename = Some (div_str base_path filename)"
    by (simp add: generate_unique_filename_def)
next
  assume a: "ex (div_str base_path filename) \<and> 1 \<le> n
        \<and> \<not> ex (candidate base_path (stem (div_str base_path filename))
                    (suffix_of (div_str base_path filename)) n)
        \<and> (\<forall>m. 1 \<le> m \<and> m < n \<longrightarrow>
              ex (candidate base_path (stem (div_str base_path filename))
                    (suffix_of (div_str base_path filename)) m))"
  then have "probe ex base_path (stem (div_str base_path filename))
       (suffix_of (div_str base_path filename)) 1
     = Some (candidate base_path (stem (div_str base_path filename))
                  (suffix_of (div_str base_path filename)) n)"
    by (intro probe_finds) auto
  with a show "generate_unique_filename ex base_path filename
        = Some (candidate base_path (stem (div_str base_path filename))
                  (suffix_of (div_str base_path filename)) n)"
    by (simp add: generate_unique_filename_def Let_def)
next
  assume a: "\<not> mirror_dir_structure cfg \<and> valid_name nm
        \<and> stat (fs st) (output_dir cfg) = Some (Dir l [])
        \<and> (\<forall>d \<in> set ds. name (Path_of_str (path d)) = nm)"
  have idx: "map (\<lambda>(i, d). child (output_dir cfg) (numbered_name nm i)) (enumerate 0 ds)
      = map (\<lambda>i. child (output_dir cfg) (numbered_name nm i)) [0..<length ds]"
    using map_enumerate_index[of "\<lambda>i. child (output_dir cfg) (numbered_name nm i)" 0 ds] by simp
  from a flat_write_all[of cfg nm st l "[]" 0 ds]
  obtain st' where "write_results cfg st (map (\<lambda>d. Inr (Some d)) ds) = Some (Inr st')"
    "processed_files st' = processed_files st
       @ map (\<lambda>(i, d). child (output_dir cfg) (numbered_name nm i)) (enumerate 0 ds)"
    "stat (fs st') (output_dir cfg)
       = Some (Dir l (map (\<lambda>(i, d). (numbered_name nm i, File (Some (content d))))
                               (enumerate 0 ds)))"
    by auto
  moreover have "distinct (map (numbered_name nm) [0..<length ds])"
    by (auto simp: distinct_map inj_on_def dest: numbered_name_inj)
  ultimately show "\<exists>st'. write_results cfg st (map (\<lambda>d. Inr (Some d)) ds) = Some (Inr st')
         \<and> processed_files st' = processed_files st
              @ map (\<lambda>i. child (output_dir cfg) (numbered_name nm i)) [0..<length ds]
         \<and> stat (fs st') (output_dir cfg)
             = Some (Dir l (map (\<lambda>(i, d). (numbered_name nm i, File (Some (content d))))
                               (enumerate 0 ds)))
         \<and> distinct (map (numbered_name nm) [0..<length ds])"
    unfolding idx by blast
qed

theorem C3_unique_names_witness:
  "generate_unique_filename taken_x out_dir ''x.py'' = Some (Path False [''output'', ''x_2.py''])
   \<and> (\<exists>st'. write_results cfg_src st_out (map (\<lambda>d. Inr (Some d)) three_x) = Some (Inr st')
        \<and> processed_files st' = [Path False [''output'', ''x.py''], Path False [''output'', ''x_1.py''],
                                  Path False [''output'', ''x_2.py'']]
        \<and> stat (fs st') (Path False [''output''])
            = Some (Dir True [(''x.py'', File (Some ''one'')), (''x_1.py'', File (Some ''two'')),
                              (''x_2.py'', File (Some ''three''))]))"
proof -
  have one: "m = 1" if "1 \<le> m \<and> m < 2" for m :: nat
    using that by arith
  have c: "taken_x (div_str out_dir ''x.py'')"
    "\<not> taken_x (candidate out_dir (stem (div_str out_dir ''x.py''))
                    (suffix_of (div_str out_dir ''x.py'')) 2)"
    "taken_x (candidate out_dir (stem (div_str out_dir ''x.py''))
                    (suffix_of (div_str out_dir ''x.py'')) 1)"
    "candidate out_dir (stem (div_str out_dir ''x.py''))
                    (suffix_of (div_str out_dir ''x.py'')) 2 = Path False [''output'', ''x_2.py'']"
    by code_simp+
  have all: "\<forall>m. 1 \<le> m \<and> m < 2 \<longrightarrow> taken_x (candidate out_dir (stem (div_str out_dir ''x.py''))
                    (suffix_of (div_str out_dir ''x.py'')) m)"
    using one c(3) by blast
  have 1: "generate_unique_filename taken_x out_dir ''x.py'' = Some (Path False [''output'', ''x_2.py''])"
    using C3_unique_names[of taken_x out_dir "''x.py''" 2] c all by simp
  have h: "\<not> mirror_dir_structure cfg_src" "valid_name ''x.py''"
    "stat (fs st_out) (output_dir cfg_src) = Some (Dir True [])"
    "\<forall>d \<in> set three_x. name (Path_of_str (path d)) = ''x.py''"
    "processed_files st_out = []" "output_dir cfg_src = Path False [''output'']"
    by code_simp+
  have v: "map (\<lambda>i. child (output_dir cfg_src) (numbered_name ''x.py'' i)) [0..<length three_x]
      = [Path False [''output'', ''x.py''], Path False [''output'', ''x_1.py''],
         Path False [''output'', ''x_2.py'']]"
    "map (\<lambda>(i, d). (numbered_name ''x.py'' i, File (Some (content d)))) (enumerate 0 three_x)
      = [(''x.py'', File (Some ''one'')), (''x_1.py'', File (Some ''two'')),
         (''x_2.py'', File (Some ''three''))]"
    by code_simp+
  from C3_unique_names[where cfg = cfg_src and nm = "''x.py''" and st = st_out and l = True
      and ds = three_x, THEN conjunct2, THEN conjunct2] h
  have 2: "\<exists>st'. write_results cfg_src st_out (map (\<lambda>d. Inr (Some d)) three_x) = Some (Inr st')
        \<and> processed_files st' = [Path False [''output'', ''x.py''], Path False [''output'', ''x_1.py''],
                                  Path False [''output'', ''x_2.py'']]
        \<and> stat (fs st') (Path False [''output''])
            = Some (Dir True [(''x.py'', File (Some ''one'')), (''x_1.py'', File (Some ''two'')),
                              (''x_2.py'', File (Some ''three''))])"
    unfolding v by simp blast
  from 1 2 show ?thesis by blast
qed

end
